theory Spec2Isabelle
  imports Complex_Main "HOL-Library.Sublist" "HOL-Library.AList"
begin

section \<open>create-se2: the project bootstrap script\<close>

text \<open>
  The script \<open>dist/cli.js\<close> is a sequence of calls to its collaborators: the file
  system, child processes, the console and an interactive prompt. The model passes an
  explicit state through the script: the files on disk, the child processes started so
  far (oldest first), the lines printed and the files copied so far (each with its
  source and its destination). What the collaborators answer is read from a record of
  the system the script runs on.
\<close>

subsection \<open>Errors, processes, console\<close>

datatype packageManager = Npm | Yarn | Pnpm

fun pm_name :: "packageManager \<Rightarrow> string" where
  "pm_name Npm = ''npm''"
| "pm_name Yarn = ''yarn''"
| "pm_name Pnpm = ''pnpm''"

text \<open>
  A child process is started either from a shell command line (\<open>execSync\<close>) or from a
  program, its arguments and a working directory (\<open>execa\<close>).
\<close>

datatype process = Shell string | Spawn string "string list" string

text \<open>
  The three user-facing failures carry the project name they print; every
  other failure of a collaborator is an ordinary error.
\<close>

datatype friendly = InvalidName | ReservedName string | TargetExists string

datatype error =
    FriendlyError friendly
  | ProcessFailed process
  | CopyFailed string
  | ReadFailed string
  | ParseFailed string
  | TypeError
  | WriteFailed string

datatype logline =
    Blank
  | Welcome
  | Creating string
  | Installing string
  | InitializingGit
  | Done
  | GetStarted string string
  | Warning friendly

text \<open>The disk maps a path to what is there: a file with its text, or a directory.\<close>

datatype node = File string | Directory

type_synonym disk = "string \<rightharpoonup> node"

record state =
  disk :: disk
  processes :: "process list"
  console :: "logline list"
  copied :: "(string \<times> string) list"

subsection \<open>The system the script runs on\<close>

text \<open>JSON values; the members of an object are kept in the order of its keys.\<close>

datatype json =
    JNull
  | JBool bool
  | JNumber rat
  | JString string
  | JArray "json list"
  | JObject "(string \<times> json) list"

datatype io = CopyTo string | Read string | Write string

datatype validation = Accepted | Rejected friendly

text \<open>
  What the script imports and does not define is a field of the system:
  \<^item> \<open>child p d\<close> is what running the process \<open>p\<close> on the disk \<open>d\<close> does: whether it
    exits with code 0, and the disk it leaves behind;
  \<^item> \<open>validForNewPackages\<close> is the verdict of the package \<open>validate-npm-package-name\<close>;
  \<^item> \<open>prompts initial validate\<close> is the answer of the interactive text prompt, \<open>None\<close>
    when the user cancels it;
  \<^item> \<open>glob pattern d\<close> lists the files of the disk that the copy pattern matches;
  \<^item> \<open>isJunk\<close> is the verdict of the package \<open>junk\<close> on a base name (system files
    such as \<open>.DS_Store\<close> and \<open>Thumbs.db\<close>), which the copy leaves out by default;
  \<^item> the copy works on several files at once: \<open>finish_rank\<close> orders the sources by the
    moment their copy takes effect, and \<open>in_flight\<close> tells which copies still take
    effect after another one has failed;
  \<^item> \<open>io_fails\<close> tells which file operations fail;
  \<^item> \<open>JSON_parse\<close> is the built-in parser, \<open>None\<close> when it throws, and
    \<open>JSON_stringify j n\<close> the built-in serialiser called without a replacer and with
    the indentation \<open>n\<close>;
  \<^item> \<open>cwd\<close> is the working directory and \<open>dirname\<close> the directory of the script.
\<close>

record system =
  npm_config_user_agent :: "string option"
  child :: "process \<Rightarrow> disk \<Rightarrow> bool \<times> disk"
  validForNewPackages :: "string \<Rightarrow> bool"
  prompts :: "string \<Rightarrow> (string \<Rightarrow> validation) \<Rightarrow> string option"
  glob :: "string \<Rightarrow> disk \<Rightarrow> string list"
  isJunk :: "string \<Rightarrow> bool"
  finish_rank :: "string \<Rightarrow> nat"
  in_flight :: "string \<Rightarrow> bool"
  io_fails :: "io \<Rightarrow> bool"
  JSON_parse :: "string \<Rightarrow> json option"
  JSON_stringify :: "json \<Rightarrow> nat \<Rightarrow> string"
  cwd :: string
  dirname :: string

text \<open>The command line, as the argument parser hands it over.\<close>

record request =
  projectDirectory :: "string option"
  useNpm :: bool
  useYarn :: bool
  usePnpm :: bool
  skipGit :: bool

definition print :: "logline \<Rightarrow> state \<Rightarrow> state" where
  "print l s = s\<lparr>console := console s @ [l]\<rparr>"

definition start :: "system \<Rightarrow> process \<Rightarrow> state \<Rightarrow> (error + unit) \<times> state" where
  "start y p s =
     (let (ok, d) = child y p (disk s);
          s' = s\<lparr>disk := d, processes := processes s @ [p]\<rparr>
      in if ok then (Inr (), s') else (Inl (ProcessFailed p), s'))"

definition execSync :: "system \<Rightarrow> string \<Rightarrow> state \<Rightarrow> (error + unit) \<times> state" where
  "execSync y command s = start y (Shell command) s"

definition execa ::
  "system \<Rightarrow> string \<Rightarrow> string list \<Rightarrow> string \<Rightarrow> state \<Rightarrow> (error + unit) \<times> state" where
  "execa y file arguments dir s = start y (Spawn file arguments dir) s"

definition and_then ::
  "(state \<Rightarrow> (error + 'a) \<times> state) \<Rightarrow> ('a \<Rightarrow> state \<Rightarrow> (error + 'b) \<times> state) \<Rightarrow>
   state \<Rightarrow> (error + 'b) \<times> state" where
  "and_then m f s = (case m s of (Inl e, s') \<Rightarrow> (Inl e, s') | (Inr v, s') \<Rightarrow> f v s')"

definition succeed :: "'a \<Rightarrow> state \<Rightarrow> (error + 'a) \<times> state" where
  "succeed v s = (Inr v, s)"

definition throw :: "error \<Rightarrow> state \<Rightarrow> (error + 'a) \<times> state" where
  "throw e s = (Inl e, s)"

definition try_catch ::
  "(state \<Rightarrow> (error + 'a) \<times> state) \<Rightarrow> (error \<Rightarrow> state \<Rightarrow> (error + 'a) \<times> state) \<Rightarrow>
   state \<Rightarrow> (error + 'a) \<times> state" where
  "try_catch body handler s =
     (case body s of (Inl e, s') \<Rightarrow> handler e s' | (Inr v, s') \<Rightarrow> (Inr v, s'))"

subsection \<open>detectPackageManager\<close>

definition startsWith :: "string \<Rightarrow> string \<Rightarrow> bool" where
  "startsWith s p = prefix p s"

text \<open>The chain of tests on the user agent; an undefined or empty one is falsy.\<close>

definition userAgentChoice :: "string option \<Rightarrow> packageManager option" where
  "userAgentChoice userAgent =
     (case userAgent of
        None \<Rightarrow> None
      | Some ua \<Rightarrow>
          if ua = [] then None
          else if startsWith ua ''pnpm'' then Some Pnpm
          else if startsWith ua ''yarn'' then Some Yarn
          else if startsWith ua ''npm'' then Some Npm
          else None)"

text \<open>The inner \<open>try\<close>: the pnpm probe, and the yarn probe in its \<open>catch\<close>.\<close>

definition probe :: "system \<Rightarrow> state \<Rightarrow> (error + packageManager) \<times> state" where
  "probe y s =
     (case execSync y ''pnpm --version'' s of
        (Inr _, s1) \<Rightarrow> (Inr Pnpm, s1)
      | (Inl _, s1) \<Rightarrow>
          (case execSync y ''yarn --version'' s1 of
             (Inr _, s2) \<Rightarrow> (Inr Yarn, s2)
           | (Inl e, s2) \<Rightarrow> (Inl e, s2)))"

definition detectPackageManager :: "system \<Rightarrow> state \<Rightarrow> (error + packageManager) \<times> state" where
  "detectPackageManager y =
     try_catch
       (\<lambda>s. case userAgentChoice (npm_config_user_agent y) of
               Some pm \<Rightarrow> (Inr pm, s)
             | None \<Rightarrow> probe y s)
       (\<lambda>e s. (Inr Npm, s))"

subsection \<open>Strings and paths\<close>

text \<open>
  Characters are the code units below 256. \<open>trim\<close> removes the white space and line
  terminators of the language at both ends: tab, line feed, vertical tab, form feed,
  carriage return, space and no-break space in this range.
\<close>

definition isWhiteSpace :: "char \<Rightarrow> bool" where
  "isWhiteSpace c = (of_char c \<in> {9, 10, 11, 12, 13, 32, 160 :: nat})"

definition trim :: "string \<Rightarrow> string" where
  "trim s = rev (dropWhile isWhiteSpace (rev (dropWhile isWhiteSpace s)))"

definition includes_str :: "string \<Rightarrow> string \<Rightarrow> bool" where
  "includes_str s t = sublist t s"

text \<open>
  Paths follow the POSIX flavour of the \<open>path\<close> module: \<open>path_join\<close> joins its non-empty
  arguments with a slash and normalises the result (empty and \<open>.\<close> segments vanish,
  \<open>..\<close> removes the segment before it, a trailing slash is kept); \<open>path_relative\<close>
  resolves both paths against the working directory and walks from the first to the
  second.
\<close>

fun split_on :: "char \<Rightarrow> string \<Rightarrow> string list" where
  "split_on c [] = [[]]"
| "split_on c (x # xs) =
     (if x = c then [] # split_on c xs
      else (case split_on c xs of [] \<Rightarrow> [[x]] | w # ws \<Rightarrow> (x # w) # ws))"

fun join_segments :: "string list \<Rightarrow> string" where
  "join_segments [] = []"
| "join_segments [g] = g"
| "join_segments (g # h # gs) = g @ ''/'' @ join_segments (h # gs)"

text \<open>The segments seen so far are kept innermost first.\<close>

fun resolve_segments :: "bool \<Rightarrow> string list \<Rightarrow> string list \<Rightarrow> string list" where
  "resolve_segments up seen [] = rev seen"
| "resolve_segments up seen (g # gs) =
     (if g = [] \<or> g = ''.'' then resolve_segments up seen gs
      else if g = ''..'' then
        (case seen of
           [] \<Rightarrow> resolve_segments up (if up then [g] else []) gs
         | a # as \<Rightarrow>
             if a = ''..'' then resolve_segments up (g # seen) gs
             else resolve_segments up as gs)
      else resolve_segments up (g # seen) gs)"

definition isAbsolute :: "string \<Rightarrow> bool" where
  "isAbsolute p = (p \<noteq> [] \<and> hd p = CHR ''/'')"

definition normalize :: "string \<Rightarrow> string" where
  "normalize p =
     (if p = [] then ''.''
      else
        (let absolute = isAbsolute p;
             trailing = (last p = CHR ''/'');
             body = join_segments (resolve_segments (\<not> absolute) [] (split_on CHR ''/'' p))
         in if body = [] then (if absolute then ''/'' else if trailing then ''./'' else ''.'')
            else (if absolute then ''/'' else []) @ body @ (if trailing then ''/'' else [])))"

definition path_join :: "string list \<Rightarrow> string" where
  "path_join parts =
     (let joined = join_segments (filter (\<lambda>a. a \<noteq> []) parts)
      in if joined = [] then ''.'' else normalize joined)"

definition resolved :: "string \<Rightarrow> string \<Rightarrow> string list" where
  "resolved wd p =
     resolve_segments False []
       (split_on CHR ''/'' (if isAbsolute p then p else wd @ ''/'' @ p))"

fun common :: "string list \<Rightarrow> string list \<Rightarrow> nat" where
  "common (a # as) (b # bs) = (if a = b then Suc (common as bs) else 0)"
| "common _ _ = 0"

definition path_relative :: "string \<Rightarrow> string \<Rightarrow> string \<Rightarrow> string" where
  "path_relative wd from to =
     (let fs = resolved wd from; ts = resolved wd to; k = common fs ts
      in join_segments (replicate (length fs - k) ''..'' @ drop k ts))"

definition existsSync :: "state \<Rightarrow> string \<Rightarrow> bool" where
  "existsSync s p = (disk s p \<noteq> None)"

subsection \<open>The copy of the template\<close>

text \<open>
  \<open>cpy\<close> is imported. It is modelled by what its documentation promises. The sources
  are the files that the pattern matches, which lie below the fixed part of the pattern,
  without the junk files and without those the filter refuses. Each is copied below the
  destination, under its directories relative to the fixed part of the pattern, its
  base name rewritten by \<open>rename\<close>. Missing directories are created.
\<close>

definition basename :: "string \<Rightarrow> string" where
  "basename p = last (split_on CHR ''/'' p)"

definition below :: "string \<Rightarrow> string \<Rightarrow> string \<Rightarrow> bool" where
  "below wd parent p =
     (let ps = resolved wd parent; qs = resolved wd p in prefix ps qs \<and> ps \<noteq> qs)"

definition glob_parent :: "string \<Rightarrow> string" where
  "glob_parent pattern =
     join_segments (takeWhile (\<lambda>g. CHR ''*'' \<notin> set g) (split_on CHR ''/'' pattern))"

definition destination_of ::
  "system \<Rightarrow> string \<Rightarrow> string \<Rightarrow> (string \<Rightarrow> string) \<Rightarrow> string \<Rightarrow> string" where
  "destination_of y pattern dest ren src =
     (let rel = split_on CHR ''/'' (path_relative (cwd y) (glob_parent pattern) src)
      in path_join ([dest] @ butlast rel @ [ren (last rel)]))"

definition ancestors :: "string \<Rightarrow> string list" where
  "ancestors p =
     (let segs = split_on CHR ''/'' p
      in filter (\<lambda>a. a \<noteq> []) (map (\<lambda>k. join_segments (take k segs)) [1..<length segs]))"

definition mkdirp :: "string \<Rightarrow> disk \<Rightarrow> disk" where
  "mkdirp p d = fold (\<lambda>a d'. if d' a = None then d'(a \<mapsto> Directory) else d') (ancestors p) d"

text \<open>
  A copy fails when the system says so, when the destination is a directory, when a
  file is in the way of one of its directories, or when the source is not a file. A
  copy that succeeds is added to the files copied.
\<close>

definition is_file :: "node option \<Rightarrow> bool" where
  "is_file n = (case n of Some (File text) \<Rightarrow> True | _ \<Rightarrow> False)"

definition copy_one :: "system \<Rightarrow> string \<Rightarrow> string \<Rightarrow> state \<Rightarrow> (error + unit) \<times> state" where
  "copy_one y src dst s =
     (if io_fails y (CopyTo dst) \<or> disk s dst = Some Directory
         \<or> list_ex (\<lambda>a. is_file (disk s a)) (ancestors dst)
      then (Inl (CopyFailed src), s)
      else (case disk s src of
              Some (File text) \<Rightarrow>
                (Inr (),
                 s\<lparr>disk := (mkdirp dst (disk s))(dst \<mapsto> File text),
                   copied := copied s @ [(src, dst)]\<rparr>)
            | _ \<Rightarrow> (Inl (CopyFailed src), s)))"

text \<open>
  The copies run at the same time. They take effect in the order of \<open>finish_rank\<close>. The
  first one that fails is the error of the whole copy; of the copies behind it, those
  in flight are still tried, whatever their result, and the others never start.
\<close>

fun copy_rest :: "system \<Rightarrow> (string \<times> string) list \<Rightarrow> state \<Rightarrow> state" where
  "copy_rest y [] s = s"
| "copy_rest y ((src, dst) # rest) s =
     (if in_flight y src then copy_rest y rest (snd (copy_one y src dst s))
      else copy_rest y rest s)"

fun copy_all :: "system \<Rightarrow> (string \<times> string) list \<Rightarrow> state \<Rightarrow> (error + unit) \<times> state" where
  "copy_all y [] s = (Inr (), s)"
| "copy_all y ((src, dst) # rest) s =
     (case copy_one y src dst s of
        (Inl e, s') \<Rightarrow> (Inl e, copy_rest y rest s')
      | (Inr _, s') \<Rightarrow> copy_all y rest s')"

text \<open>The pairs of a source and its destination that a call of \<open>cpy\<close> works through.\<close>

definition copies ::
  "system \<Rightarrow> string \<Rightarrow> string \<Rightarrow> (string \<Rightarrow> bool) \<Rightarrow> (string \<Rightarrow> string) \<Rightarrow> disk \<Rightarrow>
   (string \<times> string) list" where
  "copies y pattern dest flt ren d =
     map (\<lambda>src. (src, destination_of y pattern dest ren src))
       (filter flt
          (filter (\<lambda>src. \<not> isJunk y (basename src))
             (filter (below (cwd y) (glob_parent pattern)) (glob y pattern d))))"

definition cpy ::
  "system \<Rightarrow> string \<Rightarrow> string \<Rightarrow> (string \<Rightarrow> bool) \<Rightarrow> (string \<Rightarrow> string) \<Rightarrow> state \<Rightarrow>
   (error + unit) \<times> state" where
  "cpy y pattern dest flt ren s =
     copy_all y
       (sort_key (\<lambda>(src, dst). finish_rank y src) (copies y pattern dest flt ren (disk s))) s"

definition ignoreList :: "string list" where
  "ignoreList = [''node_modules'', ''.next'', ''CHANGELOG.md'']"

text \<open>The \<open>filter\<close> option, on the path of the source file.\<close>

definition copy_filter :: "system \<Rightarrow> string \<Rightarrow> string \<Rightarrow> bool" where
  "copy_filter y selectedTemplatePath src =
     list_all
       (\<lambda>ignore.
          let relativePath = path_relative (cwd y) selectedTemplatePath src
          in \<not> includes_str relativePath ignore)
       ignoreList"

text \<open>The \<open>rename\<close> option: the pattern is anchored at the start and replaced once.\<close>

definition rename :: "string \<Rightarrow> string" where
  "rename name = (if prefix ''_dot_'' name then ''.'' @ drop 5 name else name)"

definition materialize :: "system \<Rightarrow> string \<Rightarrow> string \<Rightarrow> state \<Rightarrow> (error + unit) \<times> state" where
  "materialize y selectedTemplatePath targetPath =
     cpy y (path_join [selectedTemplatePath, ''**'', ''*'']) targetPath
       (copy_filter y selectedTemplatePath) rename"

subsection \<open>The manifest\<close>

definition readJson :: "system \<Rightarrow> string \<Rightarrow> state \<Rightarrow> (error + json) \<times> state" where
  "readJson y p s =
     (if io_fails y (Read p) then (Inl (ReadFailed p), s)
      else (case disk s p of
              Some (File text) \<Rightarrow>
                (case JSON_parse y text of
                   Some j \<Rightarrow> (Inr j, s)
                 | None \<Rightarrow> (Inl (ParseFailed p), s))
            | _ \<Rightarrow> (Inl (ReadFailed p), s)))"

definition writeFile :: "system \<Rightarrow> string \<Rightarrow> string \<Rightarrow> state \<Rightarrow> (error + unit) \<times> state" where
  "writeFile y p text s =
     (if io_fails y (Write p) \<or> disk s p = Some Directory then (Inl (WriteFailed p), s)
      else (Inr (), s\<lparr>disk := (disk s)(p \<mapsto> File text)\<rparr>))"

text \<open>
  An assignment \<open>v.key = value\<close> in a module, which is strict code. On an object it
  replaces the member in place or adds it at the end. On an array it adds a property
  that is not an element, which the serialiser never sees, so the array is returned as
  it is. On \<open>null\<close> and on a primitive value it throws.
\<close>

fun set_property :: "json \<Rightarrow> string \<Rightarrow> json \<Rightarrow> error + json" where
  "set_property (JObject members) key v = Inr (JObject (AList.update key v members))"
| "set_property (JArray elements) key v = Inr (JArray elements)"
| "set_property _ key v = Inl TypeError"

definition patchManifest :: "system \<Rightarrow> string \<Rightarrow> string \<Rightarrow> state \<Rightarrow> (error + unit) \<times> state" where
  "patchManifest y targetPath projectPath =
     and_then (readJson y (path_join [targetPath, ''package.json''])) (\<lambda>pkgJson.
       case set_property pkgJson ''name'' (JString projectPath) of
         Inl e \<Rightarrow> throw e
       | Inr pkgJson1 \<Rightarrow>
           (case set_property pkgJson1 ''version'' (JString ''0.1.0'') of
              Inl e \<Rightarrow> throw e
            | Inr pkgJson2 \<Rightarrow>
                writeFile y (path_join [targetPath, ''package.json''])
                  (JSON_stringify y pkgJson2 2)))"

subsection \<open>The script\<close>

definition reservedPackageNames :: "string list" where
  "reservedPackageNames =
     [''@se-2/create-se2'', ''@ethersproject/networks'', ''@ethersproject/web'',
      ''@heroicons/react'', ''@rainbow-me/rainbowkit'', ''@uniswap/sdk'', ''daisyui'',
      ''ethers'', ''next'', ''nextjs-progressbar'', ''react'', ''react-blockies'',
      ''react-copy-to-clipboard'', ''react-dom'', ''react-fast-marquee'',
      ''react-hot-toast'', ''use-debounce'', ''usehooks-ts'', ''wagmi'', ''zustand'']"

definition isValidProjectName :: "system \<Rightarrow> string \<Rightarrow> bool" where
  "isValidProjectName y v = validForNewPackages y v"

text \<open>The \<open>validate\<close> callback of the prompt.\<close>

definition validate :: "system \<Rightarrow> string \<Rightarrow> validation" where
  "validate y value2 =
     (if \<not> isValidProjectName y value2 then Rejected InvalidName
      else if value2 \<in> set reservedPackageNames then Rejected (ReservedName value2)
      else Accepted)"

definition say :: "logline \<Rightarrow> state \<Rightarrow> (error + unit) \<times> state" where
  "say l s = (Inr (), print l s)"

text \<open>
  The two checks of the name after the prompt, each throwing its friendly error. The
  message of the second prints the entry of the list that is equal to the name, which
  is the name.
\<close>

definition checkProjectName :: "system \<Rightarrow> string \<Rightarrow> state \<Rightarrow> (error + unit) \<times> state" where
  "checkProjectName y projectPath =
     (if \<not> isValidProjectName y projectPath then throw (FriendlyError InvalidName)
      else if projectPath \<in> set reservedPackageNames then
        throw (FriendlyError (ReservedName projectPath))
      else succeed ())"

definition checkTarget :: "string \<Rightarrow> string \<Rightarrow> state \<Rightarrow> (error + unit) \<times> state" where
  "checkTarget projectPath targetPath s =
     (if existsSync s targetPath then throw (FriendlyError (TargetExists projectPath)) s
      else succeed () s)"

definition selectPackageManager ::
  "system \<Rightarrow> request \<Rightarrow> state \<Rightarrow> (error + packageManager) \<times> state" where
  "selectPackageManager y r =
     (if usePnpm r then succeed Pnpm
      else if useYarn r then succeed Yarn
      else if useNpm r then succeed Npm
      else detectPackageManager y)"

definition initializeGit :: "system \<Rightarrow> request \<Rightarrow> string \<Rightarrow> state \<Rightarrow> (error + unit) \<times> state" where
  "initializeGit y r targetPath =
     (if \<not> skipGit r then
        and_then (say InitializingGit) (\<lambda>_.
        and_then (execa y ''git'' [''init''] targetPath) (\<lambda>_.
        and_then (execa y ''git'' [''add'', ''.''] targetPath) (\<lambda>_.
        execa y ''git''
          [''commit'', ''--no-verify'', ''--message'', ''Initial commit from create-se2'']
          targetPath)))
      else succeed ())"

definition selectedTemplatePath :: "system \<Rightarrow> string" where
  "selectedTemplatePath y =
     (let templatesPath = path_join [dirname y, ''..'', ''templates''];
          templateName = ''nextjs''
      in path_join [templatesPath, templateName])"

text \<open>
  Everything from the validation of the name to the last line printed, in three parts:
  up to the installation of the dependencies, the git repository, the closing lines.
\<close>

definition prepare ::
  "system \<Rightarrow> request \<Rightarrow> string \<Rightarrow> state \<Rightarrow> (error + packageManager) \<times> state" where
  "prepare y r projectPath =
     (let targetPath = path_join [cwd y, projectPath]
      in and_then (say Blank) (\<lambda>_.
         and_then (checkProjectName y projectPath) (\<lambda>_.
         and_then (checkTarget projectPath targetPath) (\<lambda>_.
         and_then (say (Creating targetPath)) (\<lambda>_.
         and_then (materialize y (selectedTemplatePath y) targetPath) (\<lambda>_.
         and_then (patchManifest y targetPath projectPath) (\<lambda>_.
         and_then (selectPackageManager y r) (\<lambda>packageManager.
         and_then (say (Installing (pm_name packageManager))) (\<lambda>_.
         and_then (execa y (pm_name packageManager) [''install''] targetPath) (\<lambda>_.
         succeed packageManager))))))))))"

definition farewell :: "string \<Rightarrow> packageManager \<Rightarrow> state \<Rightarrow> (error + unit) \<times> state" where
  "farewell projectPath packageManager =
     and_then (say Done) (\<lambda>_.
     and_then (say Blank) (\<lambda>_.
     and_then
       (say (GetStarted projectPath
               (pm_name packageManager @ (if packageManager = Npm then '' run'' else [])
                @ '' start''))) (\<lambda>_.
     say Blank)))"

definition scaffold :: "system \<Rightarrow> request \<Rightarrow> string \<Rightarrow> state \<Rightarrow> (error + unit) \<times> state" where
  "scaffold y r projectPath =
     and_then (prepare y r projectPath) (\<lambda>packageManager.
     and_then (initializeGit y r (path_join [cwd y, projectPath])) (\<lambda>_.
     farewell projectPath packageManager))"

text \<open>
  The body of \<open>run\<close> inside its \<open>try\<close>. An argument that is a string is trimmed; a
  missing or empty one opens the prompt, and a cancelled prompt returns at once.
\<close>

definition ask :: "system \<Rightarrow> request \<Rightarrow> state \<Rightarrow> (error + unit) \<times> state" where
  "ask y r s =
     (let s1 = print Blank s
      in case prompts y ''my-se2-app'' (validate y) of
           None \<Rightarrow> (Inr (), print Blank s1)
         | Some v \<Rightarrow> scaffold y r v s1)"

definition run_body :: "system \<Rightarrow> request \<Rightarrow> state \<Rightarrow> (error + unit) \<times> state" where
  "run_body y r s =
     (let s1 = print Welcome (print Blank s)
      in case projectDirectory r of
           None \<Rightarrow> ask y r s1
         | Some name \<Rightarrow>
             (let projectPath = trim name
              in if projectPath = [] then ask y r s1 else scaffold y r projectPath s1))"

text \<open>
  How a run ends: the function returns (the process then ends with exit code 0), the
  handler of the friendly errors prints the message and exits with code 1, or any other
  error is thrown again.
\<close>

datatype outcome = Returned | Exited nat | Thrown error

definition run :: "system \<Rightarrow> request \<Rightarrow> state \<Rightarrow> outcome \<times> state" where
  "run y r s =
     (case run_body y r s of
        (Inr _, s') \<Rightarrow> (Returned, s')
      | (Inl (FriendlyError f), s') \<Rightarrow> (Exited 1, print (Warning f) s')
      | (Inl e, s') \<Rightarrow> (Thrown e, s'))"

fun exit_code :: "outcome \<Rightarrow> nat option" where
  "exit_code Returned = Some 0"
| "exit_code (Exited n) = Some n"
| "exit_code (Thrown e) = None"

subsection \<open>A system to run the script on\<close>

text \<open>
  The tool is installed under \<open>/opt/create-se2\<close> and started in \<open>/home/user\<close> by yarn.
  Names made of lower-case letters, digits and hyphens stand for the valid ones, every
  child process succeeds and changes nothing, and the prompt is cancelled. Four kinds
  of names stand for the junk files, and the copies take effect in the order of the
  match. The parser
  knows one manifest, and the serialiser is a stand-in that prints the members of an
  object one after the other, each behind the indentation.
\<close>

definition demo_system :: system where
  \<open>demo_system = \<lparr>
     npm_config_user_agent = Some ''yarn/1.22.19 npm/? node/v18.16.0 linux x64'',
     child = (\<lambda>p d. (True, d)),
     validForNewPackages =
       (\<lambda>v. v \<noteq> [] \<and> list_all (\<lambda>c. c \<in> set ''abcdefghijklmnopqrstuvwxyz0123456789-'') v),
     prompts = (\<lambda>initial validate. None),
     glob = (\<lambda>pattern d.
       if pattern = ''/opt/create-se2/templates/nextjs/**/*''
       then [''/opt/create-se2/templates/nextjs/package.json'',
             ''/opt/create-se2/templates/nextjs/.DS_Store'',
             ''/opt/create-se2/templates/nextjs/_dot_gitignore'',
             ''/opt/create-se2/templates/nextjs/_dot_next.config.js'',
             ''/opt/create-se2/templates/nextjs/CHANGELOG.md'',
             ''/opt/create-se2/templates/nextjs/node_modules/next/index.js'',
             ''/opt/create-se2/templates/nextjs/pages/index.tsx'']
       else []),
     isJunk = (\<lambda>n. n \<in> {''.DS_Store'', ''Thumbs.db'', ''npm-debug.log''}
                  \<or> n \<noteq> [] \<and> last n = CHR ''~''),
     finish_rank = (\<lambda>src. 0),
     in_flight = (\<lambda>src. False),
     io_fails = (\<lambda>operation. False),
     JSON_parse = (\<lambda>text.
       if text = ''{"name":"se-2","version":"0.0.1","private":true}''
       then Some (JObject [(''name'', JString ''se-2''), (''version'', JString ''0.0.1''),
                           (''private'', JBool True)])
       else None),
     JSON_stringify = (\<lambda>j indent.
       case j of
         JObject members \<Rightarrow>
           concat (map (\<lambda>(k, v).
             replicate indent CHR '' '' @ k @ ''=''
             @ (case v of JString x \<Rightarrow> x | JBool b \<Rightarrow> (if b then ''true'' else ''false'')
                | _ \<Rightarrow> ''?'') @ '';'') members)
       | _ \<Rightarrow> ''?''),
     cwd = ''/home/user'',
     dirname = ''/opt/create-se2/dist/''
   \<rparr>\<close>

definition demo_disk :: disk where
  \<open>demo_disk = map_of
     [(''/opt/create-se2/templates/nextjs/package.json'',
         File ''{"name":"se-2","version":"0.0.1","private":true}''),
      (''/opt/create-se2/templates/nextjs/.DS_Store'', File ''Bud1''),
      (''/opt/create-se2/templates/nextjs/_dot_gitignore'', File ''node_modules''),
      (''/opt/create-se2/templates/nextjs/_dot_next.config.js'', File ''module.exports = {}''),
      (''/opt/create-se2/templates/nextjs/CHANGELOG.md'', File ''# Changes''),
      (''/opt/create-se2/templates/nextjs/node_modules/next/index.js'', File ''next''),
      (''/opt/create-se2/templates/nextjs/pages/index.tsx'', File ''export default Home''),
      (''/home'', Directory), (''/home/user'', Directory), (''/home/user/taken'', Directory)]\<close>

definition demo_state :: state where
  "demo_state = \<lparr>disk = demo_disk, processes = [], console = [], copied = []\<rparr>"

text \<open>The same system without a user agent, where only yarn is installed, or nothing.\<close>

definition yarn_only :: system where
  "yarn_only =
     demo_system\<lparr>npm_config_user_agent := None,
                  child := (\<lambda>p d. (p \<noteq> Shell ''pnpm --version'', d))\<rparr>"

definition no_manager :: system where
  "no_manager =
     demo_system\<lparr>npm_config_user_agent := Some ''node'', child := (\<lambda>p d. (False, d))\<rparr>"

text \<open>Command lines: a project name and no option, and every option at once.\<close>

definition named :: "string \<Rightarrow> request" where
  "named a =
     \<lparr>projectDirectory = Some a, useNpm = False, useYarn = False, usePnpm = False,
      skipGit = False\<rparr>"

definition all_flags :: request where
  "all_flags =
     \<lparr>projectDirectory = Some ''my-app'', useNpm = True, useYarn = True, usePnpm = True,
      skipGit = True\<rparr>"

text \<open>A step that never throws one of the three user-facing errors.\<close>

definition never_friendly :: "(state \<Rightarrow> (error + 'a) \<times> state) \<Rightarrow> bool" where
  "never_friendly m = (\<forall>s e s'. m s = (Inl e, s') \<longrightarrow> (\<forall>f. e \<noteq> FriendlyError f))"

text \<open>The three git commands of the script, in its order.\<close>

definition git_commands :: "string \<Rightarrow> process list" where
  "git_commands targetPath =
     [Spawn ''git'' [''init''] targetPath,
      Spawn ''git'' [''add'', ''.''] targetPath,
      Spawn ''git''
        [''commit'', ''--no-verify'', ''--message'', ''Initial commit from create-se2'']
        targetPath]"

text \<open>A system where \<open>git add\<close> fails.\<close>

definition git_broken :: system where
  "git_broken =
     demo_system
       \<lparr>child := (\<lambda>p d. (p \<noteq> Spawn ''git'' [''add'', ''.''] ''/home/user/my-app'', d))\<rparr>"

text \<open>The state right after the copy of the manifest into a new project.\<close>

definition demo_project :: state where
  \<open>demo_project =
     demo_state\<lparr>disk := demo_disk(''/home/user/my-app/package.json'' \<mapsto>
       File ''{"name":"se-2","version":"0.0.1","private":true}'')\<rparr>\<close>

text \<open>A matcher that answers as the demo system on the template pattern only.\<close>

definition elsewhere :: "string \<Rightarrow> disk \<Rightarrow> string list" where
  "elsewhere pattern d =
     (if pattern = ''/opt/create-se2/templates/nextjs/**/*'' then glob demo_system pattern d
      else [''/etc/passwd''])"

text \<open>A file name: not empty, not a dot segment, without a slash.\<close>

definition proper :: "string \<Rightarrow> bool" where
  "proper n = (n \<noteq> [] \<and> n \<noteq> ''.'' \<and> n \<noteq> ''..'' \<and> CHR ''/'' \<notin> set n)"

section \<open>Properties\<close>

subsection \<open>The package manager\<close>

lemma startsWith_exclusive:
  "startsWith a ''yarn'' \<Longrightarrow> \<not> startsWith a ''pnpm''"
  "startsWith a ''npm'' \<Longrightarrow> \<not> startsWith a ''pnpm''"
  "startsWith a ''npm'' \<Longrightarrow> \<not> startsWith a ''yarn''"
  "startsWith a ''pnpm'' \<Longrightarrow> a \<noteq> []"
  "startsWith a ''yarn'' \<Longrightarrow> a \<noteq> []"
  "startsWith a ''npm'' \<Longrightarrow> a \<noteq> []"
  by (auto simp: startsWith_def prefix_def)

lemma userAgentChoice_cases:
  "startsWith a ''pnpm'' \<Longrightarrow> userAgentChoice (Some a) = Some Pnpm"
  "startsWith a ''yarn'' \<Longrightarrow> userAgentChoice (Some a) = Some Yarn"
  "startsWith a ''npm'' \<Longrightarrow> userAgentChoice (Some a) = Some Npm"
  "\<not> startsWith a ''pnpm'' \<Longrightarrow> \<not> startsWith a ''yarn'' \<Longrightarrow> \<not> startsWith a ''npm'' \<Longrightarrow>
     userAgentChoice (Some a) = None"
  "userAgentChoice None = None"
  using startsWith_exclusive[of a] by (auto simp: userAgentChoice_def)

text \<open>
  C8. \<open>detectPackageManager\<close> always returns one of npm, yarn and pnpm and never throws.
  A user agent starting with \<open>pnpm\<close>, \<open>yarn\<close> or \<open>npm\<close> decides, without any probe.
  Otherwise \<open>pnpm --version\<close> is run, and \<open>yarn --version\<close> only if that fails (on the
  disk the first probe left); the first probe that succeeds names the manager, and when
  the yarn probe fails too the error is caught and the answer is npm.
\<close>

theorem detectPackageManager_fallback:
  fixes y :: system and s :: state
  defines "ua \<equiv> npm_config_user_agent y"
  defines "p1 \<equiv> child y (Shell ''pnpm --version'') (disk s)"
  defines "p2 \<equiv> child y (Shell ''yarn --version'') (snd p1)"
  shows "(\<exists>pm s'. detectPackageManager y s = (Inr pm, s'))
    \<and> ((\<exists>a. ua = Some a \<and> startsWith a ''pnpm'') \<longrightarrow> detectPackageManager y s = (Inr Pnpm, s))
    \<and> ((\<exists>a. ua = Some a \<and> startsWith a ''yarn'') \<longrightarrow> detectPackageManager y s = (Inr Yarn, s))
    \<and> ((\<exists>a. ua = Some a \<and> startsWith a ''npm'') \<longrightarrow> detectPackageManager y s = (Inr Npm, s))
    \<and> ((\<forall>a. ua = Some a \<longrightarrow>
           \<not> startsWith a ''pnpm'' \<and> \<not> startsWith a ''yarn'' \<and> \<not> startsWith a ''npm'') \<longrightarrow>
         (fst p1 \<longrightarrow>
            detectPackageManager y s =
              (Inr Pnpm,
               s\<lparr>disk := snd p1, processes := processes s @ [Shell ''pnpm --version'']\<rparr>))
       \<and> (\<not> fst p1 \<longrightarrow>
            detectPackageManager y s =
              (Inr (if fst p2 then Yarn else Npm),
               s\<lparr>disk := snd p2,
                 processes := processes s @ [Shell ''pnpm --version'', Shell ''yarn --version'']\<rparr>)))"
proof -
  have total: "\<exists>pm s'. detectPackageManager y s = (Inr pm, s')"
    by (auto simp: detectPackageManager_def try_catch_def
        split: option.splits prod.splits sum.splits)
  have agent: "userAgentChoice ua = Some pm \<Longrightarrow> detectPackageManager y s = (Inr pm, s)" for pm
    by (simp add: detectPackageManager_def try_catch_def ua_def)
  have probing: "userAgentChoice ua = None \<Longrightarrow>
       detectPackageManager y s =
         (if fst p1
          then (Inr Pnpm,
                s\<lparr>disk := snd p1, processes := processes s @ [Shell ''pnpm --version'']\<rparr>)
          else (Inr (if fst p2 then Yarn else Npm),
                s\<lparr>disk := snd p2,
                  processes :=
                    processes s @ [Shell ''pnpm --version'', Shell ''yarn --version'']\<rparr>))"
    by (auto simp: detectPackageManager_def try_catch_def ua_def p1_def p2_def probe_def
        execSync_def start_def Let_def split: prod.splits)
  have none: "userAgentChoice ua = None"
    if "\<forall>a. ua = Some a \<longrightarrow>
           \<not> startsWith a ''pnpm'' \<and> \<not> startsWith a ''yarn'' \<and> \<not> startsWith a ''npm''"
    using that by (cases ua) (auto simp: userAgentChoice_cases)
  show ?thesis
    using total agent probing none by (auto simp: userAgentChoice_cases)
qed

theorem detectPackageManager_fallback_witness:
  "startsWith ''yarn/1.22.19 npm/? node/v18.16.0 linux x64'' ''yarn''
   \<and> detectPackageManager demo_system demo_state = (Inr Yarn, demo_state)
   \<and> \<not> fst (child yarn_only (Shell ''pnpm --version'') demo_disk)
   \<and> detectPackageManager yarn_only demo_state =
       (Inr Yarn,
        demo_state\<lparr>disk := demo_disk,
          processes := [Shell ''pnpm --version'', Shell ''yarn --version'']\<rparr>)
   \<and> \<not> startsWith ''node'' ''npm''
   \<and> detectPackageManager no_manager demo_state =
       (Inr Npm,
        demo_state\<lparr>disk := demo_disk,
          processes := [Shell ''pnpm --version'', Shell ''yarn --version'']\<rparr>)"
  using detectPackageManager_fallback [of demo_system demo_state]
    detectPackageManager_fallback [of yarn_only demo_state]
    detectPackageManager_fallback [of no_manager demo_state]
  by (simp add: demo_system_def yarn_only_def no_manager_def demo_state_def startsWith_def)

text \<open>
  C7. A flag on the command line decides the package manager, pnpm before yarn before
  npm: the choice is then the same on every system and leaves the state as it is, so
  neither the user agent is read nor a probe started. Only without any flag is the
  choice that of \<open>detectPackageManager\<close>.
\<close>

theorem selectPackageManager_flags:
  "(usePnpm r \<longrightarrow> selectPackageManager y r s = (Inr Pnpm, s))
 \<and> (\<not> usePnpm r \<and> useYarn r \<longrightarrow> selectPackageManager y r s = (Inr Yarn, s))
 \<and> (\<not> usePnpm r \<and> \<not> useYarn r \<and> useNpm r \<longrightarrow> selectPackageManager y r s = (Inr Npm, s))
 \<and> (\<not> usePnpm r \<and> \<not> useYarn r \<and> \<not> useNpm r \<longrightarrow>
       selectPackageManager y r s = detectPackageManager y s)"
  by (simp add: selectPackageManager_def succeed_def)

theorem selectPackageManager_flags_witness:
  "usePnpm all_flags \<and> useYarn all_flags
   \<and> selectPackageManager no_manager all_flags demo_state = (Inr Pnpm, demo_state)
   \<and> \<not> usePnpm (all_flags\<lparr>usePnpm := False\<rparr>) \<and> useYarn (all_flags\<lparr>usePnpm := False\<rparr>)
   \<and> selectPackageManager no_manager (all_flags\<lparr>usePnpm := False\<rparr>) demo_state
       = (Inr Yarn, demo_state)
   \<and> fst (detectPackageManager no_manager demo_state) = Inr Npm"
  using selectPackageManager_flags [of all_flags no_manager demo_state]
    selectPackageManager_flags [of "all_flags\<lparr>usePnpm := False\<rparr>" no_manager demo_state]
  by (simp add: all_flags_def detectPackageManager_def try_catch_def userAgentChoice_def
      startsWith_def probe_def execSync_def start_def no_manager_def demo_system_def)

subsection \<open>The project name\<close>

lemma and_then_say: "and_then (say l) f s = f () (s\<lparr>console := console s @ [l]\<rparr>)"
  by (simp add: and_then_def say_def print_def)

lemma and_then_throw: "and_then (throw e) f s = (Inl e, s)"
  by (simp add: and_then_def throw_def)

lemma and_then_succeed: "and_then (succeed v) f s = f v s"
  by (simp add: and_then_def succeed_def)

lemmas monad_simps = and_then_say and_then_throw and_then_succeed

lemma run_body_named:
  "projectDirectory r = Some a \<Longrightarrow> trim a \<noteq> [] \<Longrightarrow>
   run_body y r s = scaffold y r (trim a) (s\<lparr>console := console s @ [Blank, Welcome]\<rparr>)"
  by (simp add: run_body_def print_def Let_def)

lemma run_body_unnamed:
  "projectDirectory r = None \<or> (\<exists>a. projectDirectory r = Some a \<and> trim a = []) \<Longrightarrow>
   run_body y r s = ask y r (s\<lparr>console := console s @ [Blank, Welcome]\<rparr>)"
  by (auto simp: run_body_def print_def Let_def)

lemma prepare_invalid:
  "\<not> validForNewPackages y n \<Longrightarrow>
   prepare y r n s = (Inl (FriendlyError InvalidName), s\<lparr>console := console s @ [Blank]\<rparr>)"
  by (simp add: prepare_def Let_def monad_simps checkProjectName_def isValidProjectName_def)

lemma prepare_reserved:
  "validForNewPackages y n \<Longrightarrow> n \<in> set reservedPackageNames \<Longrightarrow>
   prepare y r n s =
     (Inl (FriendlyError (ReservedName n)), s\<lparr>console := console s @ [Blank]\<rparr>)"
  by (simp add: prepare_def Let_def monad_simps checkProjectName_def isValidProjectName_def)

lemma scaffold_error:
  "prepare y r n s = (Inl e, s') \<Longrightarrow> scaffold y r n s = (Inl e, s')"
  by (simp add: scaffold_def and_then_def)

text \<open>
  C1. A name that the package-name rule refuses is rejected as invalid; a name that
  passes the rule and is equal to an entry of the reserved list is rejected as reserved;
  every other name is accepted. This holds for the \<open>validate\<close> callback of the prompt
  and for the checks after it, and a run started with such a name (not empty once
  trimmed) prints the matching warning and exits with code 1.
\<close>

theorem name_validation_trichotomy:
  "(\<not> validForNewPackages y n \<longrightarrow>
      validate y n = Rejected InvalidName
      \<and> checkProjectName y n s = (Inl (FriendlyError InvalidName), s))
 \<and> (validForNewPackages y n \<and> n \<in> set reservedPackageNames \<longrightarrow>
      validate y n = Rejected (ReservedName n)
      \<and> checkProjectName y n s = (Inl (FriendlyError (ReservedName n)), s))
 \<and> (validForNewPackages y n \<and> n \<notin> set reservedPackageNames \<longrightarrow>
      validate y n = Accepted \<and> checkProjectName y n s = (Inr (), s))
 \<and> (projectDirectory r = Some a \<and> trim a = n \<and> n \<noteq> [] \<and> \<not> validForNewPackages y n \<longrightarrow>
      run y r s =
        (Exited 1, s\<lparr>console := console s @ [Blank, Welcome, Blank, Warning InvalidName]\<rparr>))
 \<and> (projectDirectory r = Some a \<and> trim a = n \<and> n \<noteq> [] \<and> validForNewPackages y n
      \<and> n \<in> set reservedPackageNames \<longrightarrow>
      run y r s =
        (Exited 1,
         s\<lparr>console := console s @ [Blank, Welcome, Blank, Warning (ReservedName n)]\<rparr>))"
proof (intro conjI impI)
  assume h: "projectDirectory r = Some a \<and> trim a = n \<and> n \<noteq> [] \<and> \<not> validForNewPackages y n"
  then have "run_body y r s =
      (Inl (FriendlyError InvalidName), s\<lparr>console := console s @ [Blank, Welcome, Blank]\<rparr>)"
    using run_body_named [of r a y s] scaffold_error [OF prepare_invalid] by simp
  then show "run y r s =
      (Exited 1, s\<lparr>console := console s @ [Blank, Welcome, Blank, Warning InvalidName]\<rparr>)"
    by (simp add: run_def print_def)
next
  assume h: "projectDirectory r = Some a \<and> trim a = n \<and> n \<noteq> [] \<and> validForNewPackages y n
      \<and> n \<in> set reservedPackageNames"
  then have "run_body y r s =
      (Inl (FriendlyError (ReservedName n)),
       s\<lparr>console := console s @ [Blank, Welcome, Blank]\<rparr>)"
    using run_body_named [of r a y s] scaffold_error [OF prepare_reserved] by simp
  then show "run y r s =
      (Exited 1, s\<lparr>console := console s @ [Blank, Welcome, Blank, Warning (ReservedName n)]\<rparr>)"
    by (simp add: run_def print_def)
qed (simp_all add: validate_def checkProjectName_def isValidProjectName_def throw_def
    succeed_def)

theorem name_validation_trichotomy_witness:
  "\<not> validForNewPackages demo_system ''My App''
   \<and> validate demo_system ''My App'' = Rejected InvalidName
   \<and> fst (run demo_system (named '' My App '') demo_state) = Exited 1
   \<and> validForNewPackages demo_system ''ethers'' \<and> ''ethers'' \<in> set reservedPackageNames
   \<and> validate demo_system ''ethers'' = Rejected (ReservedName ''ethers'')
   \<and> console (snd (run demo_system (named ''ethers'') demo_state))
       = [Blank, Welcome, Blank, Warning (ReservedName ''ethers'')]
   \<and> validForNewPackages demo_system ''ethers-app''
   \<and> ''ethers-app'' \<notin> set reservedPackageNames
   \<and> validate demo_system ''ethers-app'' = Accepted
   \<and> checkProjectName demo_system ''ethers-app'' demo_state = (Inr (), demo_state)"
  using name_validation_trichotomy
      [of demo_system "''My App''" demo_state "named '' My App ''" "'' My App ''"]
    name_validation_trichotomy
      [of demo_system "''ethers''" demo_state "named ''ethers''" "''ethers''"]
    name_validation_trichotomy
      [of demo_system "''ethers-app''" demo_state "named ''ethers-app''" "''ethers-app''"]
  by (simp add: demo_system_def named_def reservedPackageNames_def trim_def isWhiteSpace_def
      demo_state_def)

subsection \<open>The copy of the template\<close>

lemma split_on_not_Nil: "split_on c xs \<noteq> []"
  by (induction xs) (auto split: list.splits)

lemma split_on_free: "g \<in> set (split_on c xs) \<Longrightarrow> c \<notin> set g"
  by (induction xs arbitrary: g) (auto split: list.splits if_splits)

lemma split_on_plain: "c \<notin> set n \<Longrightarrow> split_on c n = [n]"
  by (induction n) auto

lemma split_on_append: "split_on c (xs @ c # ys) = split_on c xs @ split_on c ys"
proof (induction xs)
  case Nil
  then show ?case by simp
next
  case (Cons x xs)
  then show ?case
    using split_on_not_Nil [of c xs] by (cases "split_on c xs") auto
qed

lemma join_segments_snoc:
  "join_segments (fs @ [n]) = (if fs = [] then n else join_segments fs @ CHR ''/'' # n)"
  by (induction fs rule: join_segments.induct) auto

lemma split_on_join:
  "segs \<noteq> [] \<Longrightarrow> \<forall>g \<in> set segs. CHR ''/'' \<notin> set g \<Longrightarrow>
   split_on CHR ''/'' (join_segments segs) = segs"
proof (induction segs rule: join_segments.induct)
  case 1
  then show ?case by simp
next
  case (2 g)
  then show ?case by (simp add: split_on_plain)
next
  case (3 g h gs)
  then have "split_on CHR ''/'' (g @ CHR ''/'' # join_segments (h # gs))
      = split_on CHR ''/'' g @ (h # gs)"
    by (simp add: split_on_append)
  with 3 show ?case by (simp add: split_on_plain)
qed

lemma resolve_segments_snoc:
  "proper n \<Longrightarrow> \<exists>pre. resolve_segments up seen (gs @ [n]) = pre @ [n]
      \<and> set pre \<subseteq> set seen \<union> set gs"
proof (induction gs arbitrary: seen)
  case Nil
  then show ?case by (auto simp: proper_def)
next
  case (Cons g gs)
  show ?case
  proof (cases "g = [] \<or> g = ''.''")
    case True
    with Cons.IH [OF Cons.prems, of seen] show ?thesis by auto
  next
    case False
    show ?thesis
    proof (cases "g = ''..''")
      case dots: True
      show ?thesis
      proof (cases seen)
        case Nil
        with dots Cons.IH [OF Cons.prems, of "if up then [g] else []"] show ?thesis
          by (auto split: if_splits)
      next
        case (Cons a as)
        with dots Cons.IH [OF Cons.prems, of "g # seen"] Cons.IH [OF Cons.prems, of as]
        show ?thesis by (auto split: if_splits)
      qed
    next
      case False
      with \<open>\<not> (g = [] \<or> g = ''.'')\<close> Cons.IH [OF Cons.prems, of "g # seen"]
      show ?thesis by auto
    qed
  qed
qed

lemma normalize_base_name:
  assumes "proper n" and "split_on CHR ''/'' p = gs @ [n]"
  shows "last (split_on CHR ''/'' (normalize p)) = n"
proof -
  from assms have p: "p \<noteq> []" "last p \<noteq> CHR ''/''"
  proof -
    show "p \<noteq> []" using assms by (auto simp: proper_def)
    show "last p \<noteq> CHR ''/''"
    proof
      assume "last p = CHR ''/''"
      with \<open>p \<noteq> []\<close> have "p = butlast p @ CHR ''/'' # []" by (metis append_butlast_last_id)
      then have "split_on CHR ''/'' p = split_on CHR ''/'' (butlast p) @ [[]]"
        by (metis split_on_append split_on.simps(1))
      with assms show False by (simp add: proper_def)
    qed
  qed
  from resolve_segments_snoc [OF assms(1), of "\<not> isAbsolute p" "[]" gs] assms(2)
  obtain pre where pre: "resolve_segments (\<not> isAbsolute p) [] (split_on CHR ''/'' p) = pre @ [n]"
    and sub: "set pre \<subseteq> set gs"
    by auto
  have free: "\<forall>g \<in> set (pre @ [n]). CHR ''/'' \<notin> set g"
    using sub assms split_on_free [of _ "CHR ''/''" p] by (auto simp: proper_def)
  then have sp: "split_on CHR ''/'' (join_segments (pre @ [n])) = pre @ [n]"
    by (intro split_on_join) auto
  have ne: "join_segments (pre @ [n]) \<noteq> []"
    using assms(1) by (auto simp: join_segments_snoc proper_def)
  show ?thesis
  proof (cases "isAbsolute p")
    case True
    with p pre ne have "normalize p = CHR ''/'' # join_segments (pre @ [n])"
      by (simp add: normalize_def Let_def)
    then have "split_on CHR ''/'' (normalize p) = [] # (pre @ [n])"
      using split_on_append [of "CHR ''/''" "[]" "join_segments (pre @ [n])"] sp by simp
    then show ?thesis by simp
  next
    case False
    with p pre ne have "normalize p = join_segments (pre @ [n])"
      by (simp add: normalize_def Let_def)
    with sp show ?thesis by simp
  qed
qed

lemma path_join_base_name:
  assumes "proper n"
  shows "last (split_on CHR ''/'' (path_join (parts @ [n]))) = n"
proof -
  let ?fs = "filter (\<lambda>a. a \<noteq> []) parts"
  let ?joined = "join_segments (?fs @ [n])"
  from assms have n: "n \<noteq> []" "CHR ''/'' \<notin> set n" by (auto simp: proper_def)
  have joined: "join_segments (filter (\<lambda>a. a \<noteq> []) (parts @ [n])) = ?joined"
    using n by simp
  have ne: "?joined \<noteq> []"
    using n by (auto simp: join_segments_snoc)
  have "\<exists>gs. split_on CHR ''/'' ?joined = gs @ [n]"
    using n by (auto simp: join_segments_snoc split_on_append split_on_plain)
  then obtain gs where "split_on CHR ''/'' ?joined = gs @ [n]" ..
  from normalize_base_name [OF assms this] joined ne show ?thesis
    by (simp add: path_join_def Let_def)
qed


subsection \<open>Paths\<close>

lemma resolve_segments_append:
  "resolve_segments up seen (gs @ hs) = resolve_segments up (rev (resolve_segments up seen gs)) hs"
  by (induction gs arbitrary: seen) (auto split: list.splits)

lemma resolve_segments_proper:
  "list_all proper gs \<Longrightarrow> resolve_segments up seen gs = rev seen @ gs"
  by (induction gs arbitrary: seen) (auto simp: proper_def)

lemma resolve_segments_out:
  "list_all proper seen \<Longrightarrow> list_all (\<lambda>g. CHR ''/'' \<notin> set g) gs \<Longrightarrow>
   list_all proper (resolve_segments False seen gs)
   \<and> set (resolve_segments False seen gs) \<subseteq> set seen \<union> set gs"
proof (induction gs arbitrary: seen)
  case Nil
  then show ?case by (simp add: list_all_iff)
next
  case (Cons g gs)
  show ?case
  proof (cases "g = [] \<or> g = ''.''")
    case True
    with Cons.IH [of seen] Cons.prems show ?thesis by auto
  next
    case False
    show ?thesis
    proof (cases "g = ''..''")
      case dots: True
      show ?thesis
      proof (cases seen)
        case Nil
        with dots Cons.IH [of "[]"] Cons.prems show ?thesis by auto
      next
        case (Cons a as)
        with Cons.prems have "proper a" and rest: "list_all proper as" by simp_all
        then have "a \<noteq> ''..''" by (simp add: proper_def)
        with rest dots Cons Cons.IH [of as] Cons.prems(2) show ?thesis by auto
      qed
    next
      case False
      with \<open>\<not> (g = [] \<or> g = ''.'')\<close> Cons.prems(2) have "proper g"
        by (simp add: proper_def)
      with Cons.prems(1) have "list_all proper (g # seen)"
        by simp
      with False \<open>\<not> (g = [] \<or> g = ''.'')\<close> Cons.IH [of "g # seen"] Cons.prems(2)
      show ?thesis by auto
    qed
  qed
qed

lemma split_on_chars: "g \<in> set (split_on c xs) \<Longrightarrow> set g \<subseteq> set xs"
proof (induction xs arbitrary: g)
  case Nil
  then show ?case by simp
next
  case (Cons x xs)
  show ?case
  proof (cases "x = c")
    case True
    with Cons show ?thesis by auto
  next
    case False
    obtain w ws where sp: "split_on c xs = w # ws"
      using split_on_not_Nil [of c xs] by (cases "split_on c xs") auto
    with False Cons.prems have "g = x # w \<or> g \<in> set ws" by simp
    moreover from sp Cons.IH have "set w \<subseteq> set xs" "\<forall>h \<in> set ws. set h \<subseteq> set xs"
      by simp_all
    ultimately show ?thesis by auto
  qed
qed

lemma split_on_all_free: "list_all (\<lambda>g. c \<notin> set g) (split_on c xs)"
  by (auto simp: list_all_iff dest: split_on_free)

lemma resolved_proper: "list_all proper (resolved wd p)"
  unfolding resolved_def
  using resolve_segments_out [of "[]", OF _ split_on_all_free] by simp

lemma resolved_chars:
  "isAbsolute p \<Longrightarrow> g \<in> set (resolved wd p) \<Longrightarrow> set g \<subseteq> set p"
  unfolding resolved_def
  using resolve_segments_out [of "[]" "split_on CHR ''/'' p", OF _ split_on_all_free]
  by (auto dest: split_on_chars)

lemma join_segments_cons:
  "xs \<noteq> [] \<Longrightarrow> join_segments (t # xs) = t @ CHR ''/'' # join_segments xs"
  by (cases xs) auto

lemma join_segments_not_Nil:
  "xs \<noteq> [] \<Longrightarrow> list_all (\<lambda>x. x \<noteq> []) xs \<Longrightarrow> join_segments xs \<noteq> []"
  by (induction xs rule: join_segments.induct) auto

lemma join_segments_last_not_Nil:
  "xs \<noteq> [] \<Longrightarrow> last xs \<noteq> [] \<Longrightarrow> join_segments xs \<noteq> []"
  by (induction xs rule: join_segments.induct) auto

lemma last_join_segments:
  "xs \<noteq> [] \<Longrightarrow> last xs \<noteq> [] \<Longrightarrow> last (join_segments xs) = last (last xs)"
proof (induction xs rule: join_segments.induct)
  case (3 g h gs)
  then have "join_segments (h # gs) \<noteq> []" by (intro join_segments_last_not_Nil) auto
  with 3 show ?case by simp
qed auto

lemma normalize_absolute:
  assumes "isAbsolute p" and "last p \<noteq> CHR ''/''"
  shows "normalize p = CHR ''/'' # join_segments (resolve_segments False [] (split_on CHR ''/'' p))"
  using assms by (auto simp: normalize_def Let_def isAbsolute_def)

lemma resolved_normal:
  assumes "list_all proper q"
  shows "resolved wd (CHR ''/'' # join_segments q) = q"
proof (cases "q = []")
  case True
  then show ?thesis by (simp add: resolved_def isAbsolute_def)
next
  case False
  from assms have "\<forall>g \<in> set q. CHR ''/'' \<notin> set g" by (auto simp: list_all_iff proper_def)
  with False have "split_on CHR ''/'' (join_segments q) = q" by (rule split_on_join)
  then have "split_on CHR ''/'' (CHR ''/'' # join_segments q) = [] # q" by simp
  with assms show ?thesis
    by (simp add: resolved_def isAbsolute_def resolve_segments_proper)
qed

lemma path_join_absolute:
  assumes "isAbsolute t" and "xs \<noteq> []" and "list_all (\<lambda>x. x \<noteq> [] \<and> CHR ''/'' \<notin> set x) xs"
  shows "path_join (t # xs)
         = CHR ''/'' # join_segments (resolve_segments False (rev (resolved wd t)) xs)"
proof -
  let ?j = "t @ CHR ''/'' # join_segments xs"
  from assms have ne: "list_all (\<lambda>x. x \<noteq> []) xs" and free: "\<forall>g \<in> set xs. CHR ''/'' \<notin> set g"
    by (auto simp: list_all_iff)
  from assms(1) have t: "t \<noteq> []" by (simp add: isAbsolute_def)
  with ne have "filter (\<lambda>a. a \<noteq> []) (t # xs) = t # xs"
    by (simp add: list_all_iff filter_id_conv)
  then have pj: "path_join (t # xs) = normalize ?j"
    using assms(2) by (simp add: path_join_def join_segments_cons)
  from assms(1) have abs: "isAbsolute ?j" by (auto simp: isAbsolute_def)
  from assms(2) ne have "last xs \<noteq> []" by (auto simp: list_all_iff)
  with assms(2) have "last (join_segments xs) = last (last xs)" by (rule last_join_segments)
  moreover from assms(2) free \<open>last xs \<noteq> []\<close> have "last (last xs) \<noteq> CHR ''/''"
    by (metis last_in_set)
  moreover from assms(2) ne have "join_segments xs \<noteq> []" by (rule join_segments_not_Nil)
  ultimately have lst: "last ?j \<noteq> CHR ''/''" by simp
  from assms(2) free have "split_on CHR ''/'' ?j = split_on CHR ''/'' t @ xs"
    by (simp add: split_on_append split_on_join)
  then have "resolve_segments False [] (split_on CHR ''/'' ?j)
      = resolve_segments False (rev (resolved wd t)) xs"
    using assms(1) by (simp add: resolve_segments_append resolved_def)
  with pj normalize_absolute [OF abs lst] show ?thesis by simp
qed

lemma resolved_path_join:
  assumes "isAbsolute t" and "xs \<noteq> []" and "list_all (\<lambda>x. x \<noteq> [] \<and> CHR ''/'' \<notin> set x) xs"
  shows "resolved wd (path_join (t # xs)) = resolve_segments False (rev (resolved wd t)) xs"
proof -
  from assms(3) have "list_all (\<lambda>g. CHR ''/'' \<notin> set g) xs" by (auto simp: list_all_iff)
  with resolved_proper [of wd t]
  have "list_all proper (resolve_segments False (rev (resolved wd t)) xs)"
    using resolve_segments_out [of "rev (resolved wd t)" xs] by simp
  then show ?thesis
    by (simp add: path_join_absolute [OF assms, of wd] resolved_normal)
qed

lemma common_prefix: "prefix ds rs \<Longrightarrow> common rs ds = length ds \<and> common ds rs = length ds"
proof (induction ds arbitrary: rs)
  case Nil
  then show ?case by (cases rs) auto
next
  case (Cons d ds)
  then show ?case by (cases rs) auto
qed

lemma path_relative_below:
  "resolved wd b = resolved wd a @ zs \<Longrightarrow> path_relative wd a b = join_segments zs"
  using common_prefix [of "resolved wd a" "resolved wd a @ zs"]
  by (simp add: path_relative_def Let_def)

lemma below_relative:
  assumes "below wd a b"
  obtains zs where "zs \<noteq> []" and "list_all proper zs" and "resolved wd b = resolved wd a @ zs"
    and "path_relative wd a b = join_segments zs"
    and "split_on CHR ''/'' (path_relative wd a b) = zs"
proof -
  from assms obtain zs where zs: "resolved wd b = resolved wd a @ zs" "zs \<noteq> []"
    by (auto simp: below_def Let_def prefix_def)
  with resolved_proper [of wd b] have p: "list_all proper zs" by simp
  from zs(1) have rel: "path_relative wd a b = join_segments zs" by (rule path_relative_below)
  from p have "\<forall>g \<in> set zs. CHR ''/'' \<notin> set g" by (auto simp: list_all_iff proper_def)
  with zs(2) have "split_on CHR ''/'' (join_segments zs) = zs" by (rule split_on_join)
  with that zs p rel show ?thesis by simp
qed

lemma glob_parent_template:
  assumes "isAbsolute tpl" and "CHR ''*'' \<notin> set tpl" and "resolved wd tpl \<noteq> []"
  shows "resolved wd (glob_parent (path_join [tpl, ''**'', ''*''])) = resolved wd tpl"
proof -
  let ?r = "resolved wd tpl"
  have pr: "list_all proper ?r" by (rule resolved_proper)
  have "path_join [tpl, ''**'', ''*'']
      = CHR ''/'' # join_segments (resolve_segments False (rev ?r) [''**'', ''*''])"
    using assms(1) by (intro path_join_absolute) simp_all
  also have "resolve_segments False (rev ?r) [''**'', ''*''] = ?r @ [''**'', ''*'']"
    by (simp add: resolve_segments_proper proper_def)
  finally have pj: "path_join [tpl, ''**'', ''*''] = CHR ''/'' # join_segments (?r @ [''**'', ''*''])" .
  from pr have "\<forall>g \<in> set (?r @ [''**'', ''*'']). CHR ''/'' \<notin> set g"
    by (auto simp: list_all_iff proper_def)
  then have "split_on CHR ''/'' (join_segments (?r @ [''**'', ''*''])) = ?r @ [''**'', ''*'']"
    by (intro split_on_join) auto
  with pj have sp: "split_on CHR ''/'' (path_join [tpl, ''**'', ''*'']) = [] # ?r @ [''**'', ''*'']"
    by simp
  have "\<forall>g \<in> set ?r. CHR ''*'' \<notin> set g"
    using resolved_chars [OF assms(1)] assms(2) by blast
  then have "takeWhile (\<lambda>g. CHR ''*'' \<notin> set g) ([] # ?r @ [''**'', ''*'']) = [] # ?r"
    by (simp add: takeWhile_append2)
  with sp have "glob_parent (path_join [tpl, ''**'', ''*'']) = join_segments ([] # ?r)"
    by (simp add: glob_parent_def)
  also have "\<dots> = CHR ''/'' # join_segments ?r"
    using assms(3) by (simp add: join_segments_cons)
  finally show ?thesis using pr by (simp add: resolved_normal)
qed

lemma resolved_cong:
  assumes "resolved wd a = resolved wd a'"
  shows "path_relative wd a b = path_relative wd a' b" and "below wd a b = below wd a' b"
  using assms by (simp_all add: path_relative_def below_def)

lemma resolve_dots:
  assumes "list_all proper seen"
  shows "resolve_segments False seen [''..''] = rev (tl seen)"
proof (cases seen)
  case Nil
  then show ?thesis by simp
next
  case (Cons a as)
  with assms have "a \<noteq> ''..''" by (simp add: proper_def)
  with Cons show ?thesis by simp
qed

lemma destination_relative:
  fixes wd target :: string
  assumes abs: "isAbsolute target" and dirs: "list_all proper dirs"
    and n: "n \<noteq> []" "CHR ''/'' \<notin> set n"
  defines "rho \<equiv> path_relative wd target (path_join (target # dirs @ [n]))"
  shows "(proper n \<longrightarrow> rho = join_segments (dirs @ [n]))
       \<and> (n = ''.'' \<longrightarrow> rho = join_segments dirs)
       \<and> (n = ''..'' \<longrightarrow> rho = join_segments (butlast dirs) \<or> rho = ''..'' \<or> rho = [])"
proof -
  let ?t = "resolved wd target"
  have pt: "list_all proper ?t" by (rule resolved_proper)
  from dirs n have ok: "list_all (\<lambda>x. x \<noteq> [] \<and> CHR ''/'' \<notin> set x) (dirs @ [n])"
    by (auto simp: list_all_iff proper_def)
  have "resolved wd (path_join (target # dirs @ [n]))
      = resolve_segments False (rev ?t) (dirs @ [n])"
    using abs ok by (intro resolved_path_join) simp_all
  also have "\<dots> = resolve_segments False (rev (?t @ dirs)) [n]"
    using dirs by (simp add: resolve_segments_append resolve_segments_proper)
  finally have d: "resolved wd (path_join (target # dirs @ [n]))
      = resolve_segments False (rev (?t @ dirs)) [n]" .
  have a: "rho = join_segments (dirs @ [n])" if "proper n"
  proof -
    from that have "resolve_segments False (rev (?t @ dirs)) [n] = ?t @ dirs @ [n]"
      using resolve_segments_proper [of "[n]" False "rev (?t @ dirs)"] by simp
    with d show ?thesis unfolding rho_def by (intro path_relative_below) simp
  qed
  have b: "rho = join_segments dirs" if "n = ''.''"
  proof -
    from that have "resolve_segments False (rev (?t @ dirs)) [n] = ?t @ dirs" by simp
    with d show ?thesis unfolding rho_def by (intro path_relative_below) simp
  qed
  have c: "rho = join_segments (butlast dirs) \<or> rho = ''..'' \<or> rho = []" if "n = ''..''"
  proof -
    from pt dirs have "list_all proper (rev (?t @ dirs))" by simp
    with that have "resolve_segments False (rev (?t @ dirs)) [n] = rev (tl (rev (?t @ dirs)))"
      using resolve_dots [of "rev (?t @ dirs)"] by (simp only:)
    also have "\<dots> = butlast (?t @ dirs)"
      using butlast_rev [of "rev (?t @ dirs)"] by (simp only: rev_rev_ident)
    finally have r: "resolve_segments False (rev (?t @ dirs)) [n] = butlast (?t @ dirs)" .
    show ?thesis
    proof (cases "dirs = []")
      case False
      with r have "resolve_segments False (rev (?t @ dirs)) [n] = ?t @ butlast dirs"
        by (simp add: butlast_append)
      with d have "rho = join_segments (butlast dirs)"
        unfolding rho_def by (intro path_relative_below) simp
      then show ?thesis by simp
    next
      case True
      with r d have dd: "resolved wd (path_join (target # dirs @ [n])) = butlast ?t" by simp
      have "prefix (butlast ?t) ?t" by (rule prefixeq_butlast)
      then have "common ?t (butlast ?t) = length (butlast ?t)" by (simp add: common_prefix)
      with dd have "rho = join_segments (replicate (length ?t - length (butlast ?t)) ''..'')"
        unfolding rho_def by (simp add: path_relative_def Let_def)
      moreover have "length ?t - length (butlast ?t) = (if ?t = [] then 0 else 1)"
        by (cases "?t") simp_all
      ultimately show ?thesis by (cases "?t = []") simp_all
    qed
  qed
  from a b c show ?thesis by (intro conjI impI)
qed

lemma sublist_middle:
  assumes "sublist xs (a @ c # b)"
  shows "sublist xs a \<or> sublist xs b
       \<or> (\<exists>f1 f2. xs = f1 @ c # f2 \<and> suffix f1 a \<and> prefix f2 b)"
proof -
  from assms obtain ps ss where eq: "a @ c # b = ps @ xs @ ss"
    by (auto simp: sublist_def)
  then consider (left) us where "a = ps @ us" "us @ c # b = xs @ ss"
    | (right) us where "ps = a @ us" "c # b = us @ xs @ ss"
    by (auto simp: append_eq_append_conv2)
  then show ?thesis
  proof cases
    case left
    from left(2) consider (inside) vs where "us = xs @ vs"
      | (across) vs where "xs = us @ vs" "c # b = vs @ ss"
      by (auto simp: append_eq_append_conv2)
    then show ?thesis
    proof cases
      case inside
      with left(1) have "sublist xs a" by (auto simp: sublist_def)
      then show ?thesis by simp
    next
      case across
      show ?thesis
      proof (cases vs)
        case Nil
        with across left(1) have "suffix xs a" by (simp add: suffix_def)
        then have "sublist xs a" by (rule suffix_imp_sublist)
        then show ?thesis by simp
      next
        case (Cons v vs')
        with across have "xs = us @ c # vs'" "b = vs' @ ss" by simp_all
        moreover from left(1) have "suffix us a" by (simp add: suffix_def)
        moreover from \<open>b = vs' @ ss\<close> have "prefix vs' b" by simp
        ultimately have "\<exists>f1 f2. xs = f1 @ c # f2 \<and> suffix f1 a \<and> prefix f2 b" by blast
        then show ?thesis by simp
      qed
    qed
  next
    case right
    show ?thesis
    proof (cases us)
      case Nil
      show ?thesis
      proof (cases xs)
        case Nil
        then show ?thesis by simp
      next
        case (Cons x xs')
        with right(2) \<open>us = []\<close> have "xs = [] @ c # xs'" "b = xs' @ ss" by simp_all
        moreover have "suffix [] a" by simp
        moreover from \<open>b = xs' @ ss\<close> have "prefix xs' b" by simp
        ultimately have "\<exists>f1 f2. xs = f1 @ c # f2 \<and> suffix f1 a \<and> prefix f2 b" by blast
        then show ?thesis by simp
      qed
    next
      case (Cons u us')
      with right(2) have "b = us' @ xs @ ss" by simp
      then have "sublist xs b" by (auto simp: sublist_def)
      then show ?thesis by simp
    qed
  qed
qed

lemma split_at_only:
  assumes "c \<notin> set u" and "c \<notin> set v" and "f1 @ c # f2 = u @ c # v"
  shows "f1 = u \<and> f2 = v"
  using assms
proof (induction f1 arbitrary: u)
  case Nil
  then show ?case by (cases u) auto
next
  case (Cons x f1)
  then show ?case by (cases u) auto
qed

lemma sublist_in_front: "sublist xs a \<Longrightarrow> sublist xs (a @ b)"
proof -
  assume "sublist xs a"
  then obtain ps ss where "a = ps @ xs @ ss" by (auto simp: sublist_def)
  then have "a @ b = ps @ xs @ (ss @ b)" by simp
  then show ?thesis unfolding sublist_def by blast
qed

lemma sublist_in_back: "sublist xs b \<Longrightarrow> sublist xs (a @ b)"
proof -
  assume "sublist xs b"
  then obtain ps ss where "b = ps @ xs @ ss" by (auto simp: sublist_def)
  then have "a @ b = (a @ ps) @ xs @ ss" by simp
  then show ?thesis unfolding sublist_def by blast
qed

lemma renamed_fragment:
  assumes p: "p = [] \<or> last p = CHR ''/''"
    and frag: "frag \<in> set ignoreList"
    and inc: "includes_str (p @ ''.'' @ rest) frag"
  shows "includes_str (p @ ''_dot_'' @ rest) frag \<or> frag = ''.next'' \<and> prefix ''next'' rest"
proof -
  from inc have "sublist frag (p @ CHR ''.'' # rest)" by (simp add: includes_str_def)
  from sublist_middle [OF this]
  consider (before) "sublist frag p" | (behind) "sublist frag rest"
    | (across) f1 f2 where "frag = f1 @ CHR ''.'' # f2" "suffix f1 p" "prefix f2 rest"
    by (elim disjE exE conjE)
  then show ?thesis
  proof cases
    case before
    then have "sublist frag (p @ (''_dot_'' @ rest))" by (rule sublist_in_front)
    then show ?thesis by (simp only: includes_str_def simp_thms)
  next
    case behind
    then have "sublist frag ((p @ ''_dot_'') @ rest)" by (rule sublist_in_back)
    then show ?thesis by (simp add: includes_str_def)
  next
    case across
    from frag have "frag = ''node_modules'' \<or> frag = ''.next'' \<or> frag = ''CHANGELOG.md''"
      by (simp add: ignoreList_def)
    then consider (modules) "frag = ''node_modules''" | (dotnext) "frag = ''.next''"
      | (changelog) "frag = ''CHANGELOG.md''"
      by (elim disjE)
    then show ?thesis
    proof cases
      case modules
      from across(1) have "CHR ''.'' \<in> set frag" by simp
      with modules show ?thesis by simp
    next
      case dotnext
      with across(1) have "f1 @ CHR ''.'' # f2 = [] @ CHR ''.'' # ''next''" by simp
      then have "f1 = [] \<and> f2 = ''next''" by (intro split_at_only) simp_all
      with dotnext across(3) show ?thesis by simp
    next
      case changelog
      with across(1) have "f1 @ CHR ''.'' # f2 = ''CHANGELOG'' @ CHR ''.'' # ''md''"
        by simp
      then have "f1 = ''CHANGELOG'' \<and> f2 = ''md''" by (intro split_at_only) simp_all
      with across(2) obtain q where "p = q @ ''CHANGELOG''" by (auto simp: suffix_def)
      with p show ?thesis by simp
    qed
  qed
qed

lemma rename_shape:
  assumes "proper b"
  shows "rename b \<noteq> []" and "CHR ''/'' \<notin> set (rename b)"
  using assms by (auto simp: rename_def proper_def dest: in_set_dropD)

lemma rename_marked: "prefix ''_dot_'' b \<Longrightarrow> b = ''_dot_'' @ drop 5 b \<and> rename b = ''.'' @ drop 5 b"
  by (auto simp: rename_def prefix_def)

lemma short_fragment:
  assumes "frag \<in> set ignoreList" and "length r \<le> 2"
  shows "\<not> sublist frag r"
proof
  assume "sublist frag r"
  then have "length frag \<le> length r" by (rule sublist_length_le)
  with assms show False by (auto simp: ignoreList_def)
qed

lemma join_segments_dirs:
  "join_segments (dirs @ [b]) = (if dirs = [] then [] else join_segments dirs @ ''/'') @ b"
  by (simp add: join_segments_snoc)

lemma destination_fragments:
  fixes wd target :: string
  assumes abs: "isAbsolute target" and ne: "zs \<noteq> []" and zs: "list_all proper zs"
    and frag: "frag \<in> set ignoreList"
    and inc: "includes_str
       (path_relative wd target (path_join (target # butlast zs @ [rename (last zs)]))) frag"
  shows "includes_str (join_segments zs) frag
       \<or> frag = ''.next'' \<and> prefix ''_dot_next'' (last zs)"
proof -
  let ?dirs = "butlast zs" and ?b = "last zs"
  let ?n = "rename ?b"
  let ?rho = "path_relative wd target (path_join (target # ?dirs @ [?n]))"
  let ?p = "if ?dirs = [] then [] else join_segments ?dirs @ ''/''"
  from ne have split: "zs = ?dirs @ [?b]" by simp
  from ne zs have b: "proper ?b" by (simp add: list_all_iff)
  from zs have dirs: "list_all proper ?dirs" by (auto simp: list_all_iff dest: in_set_butlastD)
  have src: "join_segments zs = ?p @ ?b"
    using join_segments_dirs [of ?dirs ?b] split by simp
  have pre: "sublist frag (join_segments zs)" if "sublist frag (join_segments ?dirs)"
  proof (cases "?dirs = []")
    case True
    with that frag show ?thesis by (auto simp: ignoreList_def)
  next
    case False
    with src have "join_segments zs = join_segments ?dirs @ (''/'' @ ?b)" by simp
    with that show ?thesis by (simp only: sublist_in_front)
  qed
  note shape = rename_shape [OF b]
  note rel = destination_relative [OF abs dirs shape, of wd]
  from inc have sub: "sublist frag ?rho" by (simp add: includes_str_def)
  from shape consider (regular) "proper ?n" | (dot) "?n = ''.''" | (dots) "?n = ''..''"
    by (auto simp: proper_def)
  then show ?thesis
  proof cases
    case regular
    with rel have rho: "?rho = ?p @ ?n" by (simp only: join_segments_dirs)
    show ?thesis
    proof (cases "prefix ''_dot_'' ?b")
      case False
      then have "?n = ?b" by (simp add: rename_def)
      with rho src sub show ?thesis by (simp add: includes_str_def)
    next
      case True
      then have m: "?b = ''_dot_'' @ drop 5 ?b" "?n = ''.'' @ drop 5 ?b"
        using rename_marked by blast+
      have "?p = [] \<or> last ?p = CHR ''/''" by simp
      moreover from sub rho m(2) have "includes_str (?p @ ''.'' @ drop 5 ?b) frag"
        by (simp add: includes_str_def)
      ultimately have "includes_str (?p @ ''_dot_'' @ drop 5 ?b) frag
          \<or> frag = ''.next'' \<and> prefix ''next'' (drop 5 ?b)"
        using frag by (intro renamed_fragment)
      moreover from m(1) src have "join_segments zs = ?p @ ''_dot_'' @ drop 5 ?b" by simp
      moreover have "prefix ''_dot_next'' ?b" if "prefix ''next'' (drop 5 ?b)"
      proof -
        from that obtain r where "drop 5 ?b = ''next'' @ r" by (auto simp: prefix_def)
        with m(1) have "?b = ''_dot_next'' @ r" by simp
        then show ?thesis by (simp only: prefixI)
      qed
      ultimately show ?thesis by auto
    qed
  next
    case dot
    with rel have "?rho = join_segments ?dirs" by simp
    with sub pre show ?thesis by (simp add: includes_str_def)
  next
    case dots
    with rel consider "?rho = join_segments (butlast ?dirs)" | "length ?rho \<le> 2"
      by auto
    then show ?thesis
    proof cases
      case 1
      have "sublist frag (join_segments ?dirs)"
      proof (cases "butlast ?dirs = []")
        case True
        with 1 sub frag show ?thesis by (auto simp: ignoreList_def)
      next
        case False
        then have "?dirs = butlast ?dirs @ [last ?dirs]" by (metis append_butlast_last_id butlast.simps(1))
        then have "join_segments ?dirs = join_segments (butlast ?dirs) @ (''/'' @ last ?dirs)"
          using False join_segments_dirs [of "butlast ?dirs" "last ?dirs"] by simp
        with 1 sub show ?thesis by (simp only: sublist_in_front)
      qed
      with pre show ?thesis by (simp add: includes_str_def)
    next
      case 2
      with frag sub short_fragment show ?thesis by blast
    qed
  qed
qed

subsection \<open>The prompt and the three checks\<close>

text \<open>
  C6. When no project name is given, or the one given is empty once trimmed, the run
  opens the prompt instead of failing the validation (whatever the rule says about the
  empty name). If the prompt is cancelled the run returns at once, which ends the
  process with exit code 0: the disk and the list of processes are as before, only four
  lines were printed. If the prompt answers with a name, the run goes on with it.
\<close>

theorem no_name_opens_prompt:
  assumes "projectDirectory r = None \<or> (\<exists>a. projectDirectory r = Some a \<and> trim a = [])"
  shows "(prompts y ''my-se2-app'' (validate y) = None \<longrightarrow>
            run y r s = (Returned, s\<lparr>console := console s @ [Blank, Welcome, Blank, Blank]\<rparr>)
            \<and> exit_code (fst (run y r s)) = Some 0)
       \<and> (\<forall>v. prompts y ''my-se2-app'' (validate y) = Some v \<longrightarrow>
            run_body y r s =
              scaffold y r v (s\<lparr>console := console s @ [Blank, Welcome, Blank]\<rparr>))"
  using run_body_unnamed [OF assms, of y s]
  by (simp add: run_def ask_def print_def Let_def)

theorem no_name_opens_prompt_witness:
  "projectDirectory (named ''   '') = Some ''   '' \<and> trim ''   '' = []
   \<and> \<not> validForNewPackages demo_system []
   \<and> prompts demo_system ''my-se2-app'' (validate demo_system) = None
   \<and> run demo_system (named ''   '') demo_state
       = (Returned, demo_state\<lparr>console := [Blank, Welcome, Blank, Blank]\<rparr>)
   \<and> exit_code (fst (run demo_system (named ''   '') demo_state)) = Some 0"
  using no_name_opens_prompt [of "named ''   ''" demo_system demo_state]
  by (simp add: named_def trim_def isWhiteSpace_def demo_system_def demo_state_def)

lemma never_friendly_and_then:
  "never_friendly m \<Longrightarrow> (\<And>v. never_friendly (f v)) \<Longrightarrow> never_friendly (and_then m f)"
  unfolding never_friendly_def and_then_def
  by (auto split: prod.splits sum.splits) 

lemma never_friendly_say: "never_friendly (say l)"
  by (simp add: never_friendly_def say_def)

lemma never_friendly_succeed: "never_friendly (succeed v)"
  by (simp add: never_friendly_def succeed_def)

lemma never_friendly_start: "never_friendly (start y p)"
  by (auto simp: never_friendly_def start_def Let_def split: prod.splits if_splits)

lemma never_friendly_execa: "never_friendly (execa y file arguments dir)"
  using never_friendly_start [of y] by (simp add: never_friendly_def execa_def)

lemma copy_all_error: "copy_all y plan s = (Inl e, s') \<Longrightarrow> \<exists>src. e = CopyFailed src"
proof (induction plan arbitrary: s)
  case Nil
  then show ?case by simp
next
  case (Cons a plan)
  obtain src dst where a: "a = (src, dst)" by (cases a)
  show ?case
  proof (cases "copy_one y src dst s")
    case (Pair res s1)
    show ?thesis
    proof (cases res)
      case (Inl e1)
      with Pair Cons.prems a have "e = e1" by simp
      moreover from Pair Inl have "e1 = CopyFailed src"
        by (auto simp: copy_one_def split: if_splits option.splits node.splits)
      ultimately show ?thesis by blast
    next
      case (Inr u)
      with Pair Cons.prems a have "copy_all y plan s1 = (Inl e, s')" by simp
      then show ?thesis by (rule Cons.IH)
    qed
  qed
qed

lemma never_friendly_materialize: "never_friendly (materialize y tpl target)"
  by (auto simp: never_friendly_def materialize_def cpy_def dest: copy_all_error)

lemma never_friendly_readJson: "never_friendly (readJson y p)"
  by (auto simp: never_friendly_def readJson_def split: if_splits option.splits node.splits)

lemma never_friendly_writeFile: "never_friendly (writeFile y p text)"
  by (auto simp: never_friendly_def writeFile_def split: if_splits)

lemma set_property_error: "set_property j k v = Inl e \<Longrightarrow> e = TypeError"
  by (cases j) auto

lemma never_friendly_patchManifest: "never_friendly (patchManifest y target n)"
  unfolding patchManifest_def
  apply (rule never_friendly_and_then [OF never_friendly_readJson])
  apply (auto split: sum.splits simp: never_friendly_writeFile dest: set_property_error)
  apply (auto simp: never_friendly_def throw_def dest: set_property_error)
  done

lemma detectPackageManager_returns: "\<exists>pm s'. detectPackageManager y s = (Inr pm, s')"
  by (auto simp: detectPackageManager_def try_catch_def
      split: option.splits prod.splits sum.splits)

lemma detectPackageManager_no_error: "detectPackageManager y s \<noteq> (Inl e, s')"
  using detectPackageManager_returns [of y s] by auto

lemma never_friendly_selectPackageManager: "never_friendly (selectPackageManager y r)"
  by (auto simp: never_friendly_def selectPackageManager_def succeed_def
      detectPackageManager_no_error)

lemma never_friendlyD:
  "never_friendly m \<Longrightarrow> m s = (Inl (FriendlyError f), s') \<Longrightarrow> False"
  by (auto simp: never_friendly_def)

lemma and_then_checkTarget:
  "and_then (checkTarget n t) g s =
     (if disk s t \<noteq> None then (Inl (FriendlyError (TargetExists n)), s) else g () s)"
  by (simp add: and_then_def checkTarget_def existsSync_def throw_def succeed_def)

lemma never_friendly_install:
  "never_friendly
     (and_then (materialize y tpl target) (\<lambda>_.
      and_then (patchManifest y target n) (\<lambda>_.
      and_then (selectPackageManager y r) (\<lambda>packageManager.
      and_then (say (Installing (pm_name packageManager))) (\<lambda>_.
      and_then (execa y (pm_name packageManager) [''install''] target) (\<lambda>_.
      succeed packageManager))))))"
  by (intro never_friendly_and_then never_friendly_say never_friendly_materialize
      never_friendly_patchManifest never_friendly_selectPackageManager never_friendly_execa
      never_friendly_succeed)

lemma never_friendly_initializeGit: "never_friendly (initializeGit y r target)"
  unfolding initializeGit_def
  by (auto intro!: never_friendly_and_then never_friendly_say never_friendly_execa
      never_friendly_succeed)

lemma never_friendly_farewell: "never_friendly (farewell n pm)"
  unfolding farewell_def
  by (intro never_friendly_and_then never_friendly_say)

lemma prepare_friendly:
  assumes "prepare y r n s = (Inl (FriendlyError f), s')"
  shows "s' = s\<lparr>console := console s @ [Blank]\<rparr>
         \<and> (f = InvalidName \<and> \<not> validForNewPackages y n
            \<or> f = ReservedName n \<and> validForNewPackages y n \<and> n \<in> set reservedPackageNames
            \<or> f = TargetExists n \<and> validForNewPackages y n \<and> n \<notin> set reservedPackageNames
                \<and> disk s (path_join [cwd y, n]) \<noteq> None)"
proof (cases "validForNewPackages y n")
  case False
  with assms prepare_invalid [of y n r s] show ?thesis by simp
next
  case valid: True
  show ?thesis
  proof (cases "n \<in> set reservedPackageNames")
    case True
    with assms valid prepare_reserved [of y n r s] show ?thesis by simp
  next
    case free: False
    show ?thesis
    proof (cases "disk s (path_join [cwd y, n]) = None")
      case True
      with assms valid free have False
        by (auto simp: prepare_def Let_def monad_simps and_then_checkTarget
            checkProjectName_def isValidProjectName_def
            dest: never_friendlyD [OF never_friendly_install])
      then show ?thesis ..
    next
      case False
      with assms valid free show ?thesis
        by (simp add: prepare_def Let_def monad_simps and_then_checkTarget
            checkProjectName_def isValidProjectName_def)
    qed
  qed
qed

lemma prepare_target_exists:
  "validForNewPackages y n \<Longrightarrow> n \<notin> set reservedPackageNames \<Longrightarrow>
   disk s (path_join [cwd y, n]) \<noteq> None \<Longrightarrow>
   prepare y r n s =
     (Inl (FriendlyError (TargetExists n)), s\<lparr>console := console s @ [Blank]\<rparr>)"
  by (simp add: prepare_def Let_def monad_simps and_then_checkTarget checkProjectName_def
      isValidProjectName_def)

lemma scaffold_friendly:
  assumes "scaffold y r n s = (Inl (FriendlyError f), s')"
  shows "prepare y r n s = (Inl (FriendlyError f), s')"
proof (cases "prepare y r n s")
  case (Pair res s1)
  show ?thesis
  proof (cases res)
    case (Inl e)
    with Pair assms show ?thesis by (simp add: scaffold_def and_then_def)
  next
    case (Inr pm)
    have "never_friendly (and_then (initializeGit y r (path_join [cwd y, n]))
            (\<lambda>_. farewell n pm))"
      by (intro never_friendly_and_then never_friendly_initializeGit never_friendly_farewell)
    moreover from Pair Inr assms
    have "and_then (initializeGit y r (path_join [cwd y, n])) (\<lambda>_. farewell n pm) s1
          = (Inl (FriendlyError f), s')"
      by (simp add: scaffold_def and_then_def [of "prepare y r n"])
    ultimately have False by (rule never_friendlyD)
    then show ?thesis ..
  qed
qed


lemma prepare_blocked:
  assumes "disk s (path_join [cwd y, n]) \<noteq> None"
  shows "\<exists>f. prepare y r n s = (Inl (FriendlyError f), s\<lparr>console := console s @ [Blank]\<rparr>)"
proof (cases "validForNewPackages y n")
  case False
  then show ?thesis using prepare_invalid by blast
next
  case True
  with assms show ?thesis
    using prepare_reserved [of y n r s] prepare_target_exists [of y n s r]
    by (cases "n \<in> set reservedPackageNames") blast+
qed

lemma run_friendly:
  "run_body y r s = (Inl (FriendlyError f), s0) \<Longrightarrow>
   run y r s = (Exited 1, s0\<lparr>console := console s0 @ [Warning f]\<rparr>)"
  by (simp add: run_def print_def)

lemma run_exited:
  assumes "run y r s = (Exited k, s')"
  shows "\<exists>f s0. run_body y r s = (Inl (FriendlyError f), s0)
           \<and> s' = s0\<lparr>console := console s0 @ [Warning f]\<rparr> \<and> k = 1"
  using assms
  by (auto simp: run_def print_def split: prod.splits sum.splits error.splits)

lemma ask_friendly:
  assumes "ask y r s = (Inl (FriendlyError f), s0)"
  shows "\<exists>n. prompts y ''my-se2-app'' (validate y) = Some n
           \<and> scaffold y r n (s\<lparr>console := console s @ [Blank]\<rparr>) = (Inl (FriendlyError f), s0)"
  using assms by (auto simp: ask_def print_def Let_def split: option.splits)

lemma run_body_friendly:
  assumes "run_body y r s = (Inl (FriendlyError f), s0)"
  shows "disk s0 = disk s \<and> processes s0 = processes s"
proof -
  obtain n s1 where sc: "scaffold y r n s1 = (Inl (FriendlyError f), s0)"
    and s1: "disk s1 = disk s" "processes s1 = processes s"
  proof (cases "projectDirectory r = None \<or> (\<exists>a. projectDirectory r = Some a \<and> trim a = [])")
    case True
    from run_body_unnamed [OF True, of y s] assms
    have "ask y r (s\<lparr>console := console s @ [Blank, Welcome]\<rparr>) = (Inl (FriendlyError f), s0)"
      by simp
    from ask_friendly [OF this] that show ?thesis by force
  next
    case False
    then obtain a where "projectDirectory r = Some a" "trim a \<noteq> []" by auto
    from run_body_named [OF this, of y s] assms that show ?thesis by force
  qed
  from prepare_friendly [OF scaffold_friendly [OF sc]] s1 show ?thesis by simp
qed

text \<open>
  C5. A run that exits through the handler of the friendly errors exits with code 1 and
  has changed nothing on the disk and started no process: the invalid name, the
  reserved name and the existing destination are all found before the copy. In
  particular, when the destination exists at the start (for the name given on the
  command line, or for the one the prompt answered), the run exits with code 1 and the
  disk and the processes are untouched.
\<close>

theorem friendly_errors_precede_writes:
  assumes "run y r s = (out, s')"
  shows "(\<forall>k. out = Exited k \<longrightarrow> k = 1 \<and> disk s' = disk s \<and> processes s' = processes s)
    \<and> (\<forall>a. projectDirectory r = Some a \<and> trim a \<noteq> []
            \<and> existsSync s (path_join [cwd y, trim a]) \<longrightarrow>
          out = Exited 1 \<and> disk s' = disk s \<and> processes s' = processes s)
    \<and> (\<forall>n. (projectDirectory r = None \<or> (\<exists>a. projectDirectory r = Some a \<and> trim a = []))
            \<and> prompts y ''my-se2-app'' (validate y) = Some n
            \<and> existsSync s (path_join [cwd y, n]) \<longrightarrow>
          out = Exited 1 \<and> disk s' = disk s \<and> processes s' = processes s)"
proof (intro conjI allI impI)
  fix k
  assume "out = Exited k"
  with assms run_exited [of y r s k s'] obtain f s0 where
    "run_body y r s = (Inl (FriendlyError f), s0)"
    "s' = s0\<lparr>console := console s0 @ [Warning f]\<rparr>" "k = 1"
    by auto
  with run_body_friendly [of y r s f s0]
  show "k = 1" "disk s' = disk s" "processes s' = processes s" by simp_all
next
  fix a
  assume h: "projectDirectory r = Some a \<and> trim a \<noteq> []
    \<and> existsSync s (path_join [cwd y, trim a])"
  let ?s1 = "s\<lparr>console := console s @ [Blank, Welcome]\<rparr>"
  from h have "disk ?s1 (path_join [cwd y, trim a]) \<noteq> None" by (simp add: existsSync_def)
  from prepare_blocked [OF this, of r] obtain f where
    "prepare y r (trim a) ?s1 = (Inl (FriendlyError f), ?s1\<lparr>console := console ?s1 @ [Blank]\<rparr>)"
    by blast
  from scaffold_error [OF this] h run_body_named [of r a y s]
  have "run_body y r s = (Inl (FriendlyError f), ?s1\<lparr>console := console ?s1 @ [Blank]\<rparr>)"
    by simp
  from run_friendly [OF this] assms
  show "out = Exited 1" "disk s' = disk s" "processes s' = processes s" by auto
next
  fix n
  assume h: "(projectDirectory r = None \<or> (\<exists>a. projectDirectory r = Some a \<and> trim a = []))
    \<and> prompts y ''my-se2-app'' (validate y) = Some n
    \<and> existsSync s (path_join [cwd y, n])"
  let ?s1 = "s\<lparr>console := console s @ [Blank, Welcome, Blank]\<rparr>"
  from h have "disk ?s1 (path_join [cwd y, n]) \<noteq> None" by (simp add: existsSync_def)
  from prepare_blocked [OF this, of r] obtain f where
    "prepare y r n ?s1 = (Inl (FriendlyError f), ?s1\<lparr>console := console ?s1 @ [Blank]\<rparr>)"
    by blast
  from scaffold_error [OF this] h run_body_unnamed [of r y s]
  have "run_body y r s = (Inl (FriendlyError f), ?s1\<lparr>console := console ?s1 @ [Blank]\<rparr>)"
    by (simp add: ask_def print_def Let_def)
  from run_friendly [OF this] assms
  show "out = Exited 1" "disk s' = disk s" "processes s' = processes s" by auto
qed

theorem friendly_errors_precede_writes_witness:
  "existsSync demo_state (path_join [cwd demo_system, trim ''taken ''])
   \<and> fst (run demo_system (named ''taken '') demo_state) = Exited 1
   \<and> disk (snd (run demo_system (named ''taken '') demo_state)) = demo_disk
   \<and> processes (snd (run demo_system (named ''taken '') demo_state)) = []
   \<and> console (snd (run demo_system (named ''taken '') demo_state))
       = [Blank, Welcome, Blank, Warning (TargetExists ''taken'')]"
proof -
  obtain out s' where run: "run demo_system (named ''taken '') demo_state = (out, s')"
    by (cases "run demo_system (named ''taken '') demo_state")
  have ex: "existsSync demo_state (path_join [cwd demo_system, trim ''taken ''])"
    by code_simp
  have nm: "projectDirectory (named ''taken '') = Some ''taken ''" "trim ''taken '' \<noteq> []"
    by (simp_all add: named_def trim_def isWhiteSpace_def)
  have cn: "console (snd (run demo_system (named ''taken '') demo_state))
       = [Blank, Welcome, Blank, Warning (TargetExists ''taken'')]"
    by code_simp
  from friendly_errors_precede_writes [OF run]
  have "\<forall>a. projectDirectory (named ''taken '') = Some a \<and> trim a \<noteq> []
            \<and> existsSync demo_state (path_join [cwd demo_system, trim a]) \<longrightarrow>
          out = Exited 1 \<and> disk s' = disk demo_state \<and> processes s' = processes demo_state"
    by (rule conjunct1 [OF conjunct2])
  with ex nm have "out = Exited 1 \<and> disk s' = disk demo_state
      \<and> processes s' = processes demo_state"
    by blast
  then have "out = Exited 1 \<and> disk s' = demo_disk \<and> processes s' = []"
    by (simp add: demo_state_def)
  with run have "fst (run demo_system (named ''taken '') demo_state) = Exited 1
   \<and> disk (snd (run demo_system (named ''taken '') demo_state)) = demo_disk
   \<and> processes (snd (run demo_system (named ''taken '') demo_state)) = []"
    by simp
  with ex cn show ?thesis by blast
qed

subsection \<open>The git repository\<close>

lemma and_then_execa:
  "and_then (execa y file arguments dir) g s =
     (let c = child y (Spawn file arguments dir) (disk s);
          s1 = s\<lparr>disk := snd c, processes := processes s @ [Spawn file arguments dir]\<rparr>
      in if fst c then g () s1 else (Inl (ProcessFailed (Spawn file arguments dir)), s1))"
  by (simp add: and_then_def execa_def start_def Let_def split: prod.splits)

lemma execa_result:
  "execa y file arguments dir s =
     (let c = child y (Spawn file arguments dir) (disk s);
          s1 = s\<lparr>disk := snd c, processes := processes s @ [Spawn file arguments dir]\<rparr>
      in if fst c then (Inr (), s1) else (Inl (ProcessFailed (Spawn file arguments dir)), s1))"
  by (simp add: execa_def start_def Let_def split: prod.splits)

lemma scaffold_prepared:
  "prepare y r n s = (Inr pm, s1) \<Longrightarrow>
   scaffold y r n s =
     and_then (initializeGit y r (path_join [cwd y, n])) (\<lambda>_. farewell n pm) s1"
  by (simp add: scaffold_def and_then_def [of "prepare y r n"])

lemma farewell_result:
  "farewell n pm s =
     (Inr (),
      s\<lparr>console := console s @
          [Done, Blank,
           GetStarted n (pm_name pm @ (if pm = Npm then '' run'' else []) @ '' start''),
           Blank]\<rparr>)"
  by (simp add: farewell_def monad_simps say_def print_def)

text \<open>
  C9. With \<open>skipGit\<close> set the step does nothing. Otherwise it starts \<open>git init\<close>, then
  \<open>git add .\<close>, then the commit with \<open>--no-verify\<close> and the fixed message, all in the
  destination, each on the disk the one before left and only if the one before exited
  with code 0. The first one that fails ends the step with its error; nothing is undone.
  The error leaves the script uncaught: it is the result of the whole sequence and
  \<open>run\<close> throws it again.
\<close>

theorem initializeGit_sequence:
  fixes y :: system and r :: request and t :: string and s :: state
  defines "g \<equiv> git_commands t"
  defines "c1 \<equiv> child y (g ! 0) (disk s)"
  defines "c2 \<equiv> child y (g ! 1) (snd c1)"
  defines "c3 \<equiv> child y (g ! 2) (snd c2)"
  defines "s0 \<equiv> s\<lparr>console := console s @ [InitializingGit]\<rparr>"
  shows "(skipGit r \<longrightarrow> initializeGit y r t s = (Inr (), s))
    \<and> (\<not> skipGit r \<and> \<not> fst c1 \<longrightarrow>
         initializeGit y r t s =
           (Inl (ProcessFailed (g ! 0)), s0\<lparr>disk := snd c1, processes := processes s @ take 1 g\<rparr>))
    \<and> (\<not> skipGit r \<and> fst c1 \<and> \<not> fst c2 \<longrightarrow>
         initializeGit y r t s =
           (Inl (ProcessFailed (g ! 1)), s0\<lparr>disk := snd c2, processes := processes s @ take 2 g\<rparr>))
    \<and> (\<not> skipGit r \<and> fst c1 \<and> fst c2 \<and> \<not> fst c3 \<longrightarrow>
         initializeGit y r t s =
           (Inl (ProcessFailed (g ! 2)), s0\<lparr>disk := snd c3, processes := processes s @ g\<rparr>))
    \<and> (\<not> skipGit r \<and> fst c1 \<and> fst c2 \<and> fst c3 \<longrightarrow>
         initializeGit y r t s = (Inr (), s0\<lparr>disk := snd c3, processes := processes s @ g\<rparr>))
    \<and> (\<forall>n pm s1 e s'. prepare y r n s = (Inr pm, s1) \<and> t = path_join [cwd y, n]
          \<and> initializeGit y r t s1 = (Inl e, s') \<longrightarrow>
          scaffold y r n s = (Inl e, s'))
    \<and> (\<forall>p s'. run_body y r s = (Inl (ProcessFailed p), s') \<longrightarrow>
          run y r s = (Thrown (ProcessFailed p), s'))"
proof -
  have skip: "skipGit r \<Longrightarrow> initializeGit y r t s = (Inr (), s)"
    by (simp add: initializeGit_def succeed_def)
  have run: "\<not> skipGit r \<Longrightarrow> initializeGit y r t s =
      (if \<not> fst c1 then
         (Inl (ProcessFailed (g ! 0)), s0\<lparr>disk := snd c1, processes := processes s @ take 1 g\<rparr>)
       else if \<not> fst c2 then
         (Inl (ProcessFailed (g ! 1)), s0\<lparr>disk := snd c2, processes := processes s @ take 2 g\<rparr>)
       else if \<not> fst c3 then
         (Inl (ProcessFailed (g ! 2)), s0\<lparr>disk := snd c3, processes := processes s @ g\<rparr>)
       else (Inr (), s0\<lparr>disk := snd c3, processes := processes s @ g\<rparr>))"
    by (simp add: initializeGit_def and_then_say and_then_execa execa_result Let_def
        g_def c1_def c2_def c3_def s0_def git_commands_def)
  have up: "scaffold y r n s = (Inl e, s')"
    if "prepare y r n s = (Inr pm, s1)" "t = path_join [cwd y, n]"
      "initializeGit y r t s1 = (Inl e, s')" for n pm s1 e s'
    using that scaffold_prepared [of y r n s pm s1] by (simp add: and_then_def)
  have thrown: "run y r s = (Thrown (ProcessFailed p), s')"
    if "run_body y r s = (Inl (ProcessFailed p), s')" for p s'
    using that by (simp add: run_def)
  show ?thesis using skip run up thrown by (intro conjI impI allI) (simp_all, blast)
qed

theorem initializeGit_sequence_witness:
  "skipGit all_flags
   \<and> initializeGit demo_system all_flags ''/home/user/my-app'' demo_state = (Inr (), demo_state)
   \<and> \<not> skipGit (named ''my-app'')
   \<and> initializeGit demo_system (named ''my-app'') ''/home/user/my-app'' demo_state
       = (Inr (),
          demo_state\<lparr>console := [InitializingGit], disk := demo_disk,
            processes := git_commands ''/home/user/my-app''\<rparr>)
   \<and> initializeGit git_broken (named ''my-app'') ''/home/user/my-app'' demo_state
       = (Inl (ProcessFailed (Spawn ''git'' [''add'', ''.''] ''/home/user/my-app'')),
          demo_state\<lparr>console := [InitializingGit], disk := demo_disk,
            processes := take 2 (git_commands ''/home/user/my-app'')\<rparr>)
   \<and> fst (prepare git_broken (named ''my-app'') ''my-app'' demo_state) = Inr Yarn
   \<and> fst (scaffold git_broken (named ''my-app'') ''my-app'' demo_state)
       = Inl (ProcessFailed (Spawn ''git'' [''add'', ''.''] ''/home/user/my-app''))
   \<and> fst (run git_broken (named ''my-app'') demo_state)
       = Thrown (ProcessFailed (Spawn ''git'' [''add'', ''.''] ''/home/user/my-app''))"
proof -
  let ?t = "''/home/user/my-app''"
  let ?r = "named ''my-app''"
  let ?add = "Spawn ''git'' [''add'', ''.''] ?t"
  have a: "skipGit all_flags
     \<and> initializeGit demo_system all_flags ?t demo_state = (Inr (), demo_state)"
    using initializeGit_sequence [of all_flags demo_system ?t demo_state]
    by (simp add: all_flags_def)
  have b: "\<not> skipGit ?r
     \<and> initializeGit demo_system ?r ?t demo_state
       = (Inr (),
          demo_state\<lparr>console := [InitializingGit], disk := demo_disk,
            processes := git_commands ?t\<rparr>)"
    using initializeGit_sequence [of ?r demo_system ?t demo_state]
    by (simp add: named_def demo_system_def demo_state_def)
  have c: "initializeGit git_broken ?r ?t demo_state
       = (Inl (ProcessFailed ?add),
          demo_state\<lparr>console := [InitializingGit], disk := demo_disk,
            processes := take 2 (git_commands ?t)\<rparr>)"
    using initializeGit_sequence [of ?r git_broken ?t demo_state]
    by (simp add: named_def git_broken_def demo_system_def demo_state_def git_commands_def)
  have p: "fst (prepare git_broken ?r ''my-app'' demo_state) = Inr Yarn"
    by code_simp
  then have p': "prepare git_broken ?r ''my-app'' demo_state
      = (Inr Yarn, snd (prepare git_broken ?r ''my-app'' demo_state))"
    by (metis prod.collapse)
  have t: "?t = path_join [cwd git_broken, ''my-app'']"
    by code_simp
  have g: "fst (initializeGit git_broken ?r ?t (snd (prepare git_broken ?r ''my-app'' demo_state)))
      = Inl (ProcessFailed ?add)"
    by code_simp
  then have g': "initializeGit git_broken ?r ?t (snd (prepare git_broken ?r ''my-app'' demo_state))
      = (Inl (ProcessFailed ?add),
         snd (initializeGit git_broken ?r ?t (snd (prepare git_broken ?r ''my-app'' demo_state))))"
    by (metis prod.collapse)
  from initializeGit_sequence [of ?r git_broken ?t demo_state]
  have "\<forall>n pm s1 e s'. prepare git_broken ?r n demo_state = (Inr pm, s1)
          \<and> ?t = path_join [cwd git_broken, n]
          \<and> initializeGit git_broken ?r ?t s1 = (Inl e, s') \<longrightarrow>
          scaffold git_broken ?r n demo_state = (Inl e, s')"
    by blast
  with p' t g' have "scaffold git_broken ?r ''my-app'' demo_state
      = (Inl (ProcessFailed ?add),
         snd (initializeGit git_broken ?r ?t (snd (prepare git_broken ?r ''my-app'' demo_state))))"
    by blast
  then have d: "fst (scaffold git_broken ?r ''my-app'' demo_state) = Inl (ProcessFailed ?add)"
    by simp
  have "fst (run_body git_broken ?r demo_state) = Inl (ProcessFailed ?add)"
    by code_simp
  then have "run_body git_broken ?r demo_state
      = (Inl (ProcessFailed ?add), snd (run_body git_broken ?r demo_state))"
    by (metis prod.collapse)
  with initializeGit_sequence [of ?r git_broken ?t demo_state]
  have "run git_broken ?r demo_state
      = (Thrown (ProcessFailed ?add), snd (run_body git_broken ?r demo_state))"
    by blast
  then have e: "fst (run git_broken ?r demo_state) = Thrown (ProcessFailed ?add)"
    by simp
  from a b c p d e show ?thesis by blast
qed

subsection \<open>The manifest\<close>

lemma readJson_state: "readJson y p s = (res, s') \<Longrightarrow> s' = s"
  by (auto simp: readJson_def split: if_splits option.splits node.splits)

lemma writeFile_frame:
  "writeFile y p text s = (res, s') \<Longrightarrow>
   (\<forall>q. q \<noteq> p \<longrightarrow> disk s' q = disk s q) \<and> processes s' = processes s \<and> console s' = console s"
  by (auto simp: writeFile_def split: if_splits)

lemma patchManifest_object:
  assumes "\<not> io_fails y (Read (path_join [t, ''package.json'']))"
    and "\<not> io_fails y (Write (path_join [t, ''package.json'']))"
    and "disk s (path_join [t, ''package.json'']) = Some (File text)"
    and "JSON_parse y text = Some (JObject members)"
  shows "patchManifest y t n s =
     (Inr (),
      s\<lparr>disk := (disk s)(path_join [t, ''package.json''] \<mapsto>
         File (JSON_stringify y
           (JObject (AList.update ''version'' (JString ''0.1.0'')
              (AList.update ''name'' (JString n) members))) 2))\<rparr>)"
  using assms by (simp add: patchManifest_def and_then_def readJson_def writeFile_def)

text \<open>
  C4. The patch of the manifest changes no path of the disk other than
  \<open>package.json\<close> in the destination, starts no process and prints nothing, however it
  ends. When that file holds a JSON object and can be read and written, the step
  succeeds and the file then holds the serialisation, with indentation 2, of an object
  whose \<open>name\<close> is the project name, whose \<open>version\<close> is \<open>0.1.0\<close> whatever it was, and
  whose other keys have the values they had; the keys keep their order, and \<open>name\<close> and
  \<open>version\<close> are added at the end when they were missing.
\<close>

theorem patchManifest_frame:
  fixes y :: system and t n :: string and s :: state
  defines "pkg \<equiv> path_join [t, ''package.json'']"
  shows "(\<forall>res s'. patchManifest y t n s = (res, s') \<longrightarrow>
            (\<forall>p. p \<noteq> pkg \<longrightarrow> disk s' p = disk s p)
            \<and> processes s' = processes s \<and> console s' = console s)
    \<and> (\<forall>text members.
          \<not> io_fails y (Read pkg) \<and> \<not> io_fails y (Write pkg)
          \<and> disk s pkg = Some (File text) \<and> JSON_parse y text = Some (JObject members) \<longrightarrow>
          (\<exists>patched.
             patchManifest y t n s =
               (Inr (), s\<lparr>disk := (disk s)(pkg \<mapsto> File (JSON_stringify y (JObject patched) 2))\<rparr>)
             \<and> map_of patched ''name'' = Some (JString n)
             \<and> map_of patched ''version'' = Some (JString ''0.1.0'')
             \<and> (\<forall>k. k \<noteq> ''name'' \<and> k \<noteq> ''version'' \<longrightarrow> map_of patched k = map_of members k)
             \<and> (\<exists>added. map fst patched = map fst members @ added
                   \<and> set added \<subseteq> {''name'', ''version''})))"
proof -
  have frame: "(\<forall>p. p \<noteq> pkg \<longrightarrow> disk s' p = disk s p)
      \<and> processes s' = processes s \<and> console s' = console s"
    if run: "patchManifest y t n s = (res, s')" for res s'
  proof (cases "readJson y pkg s")
    case (Pair r1 s1)
    then have s1: "s1 = s" by (rule readJson_state)
    show ?thesis
    proof (cases r1)
      case (Inl e)
      with Pair run s1 show ?thesis by (simp add: patchManifest_def and_then_def pkg_def)
    next
      case (Inr j)
      with Pair run s1 show ?thesis
        by (auto simp: patchManifest_def and_then_def pkg_def throw_def
            split: sum.splits dest!: writeFile_frame)
    qed
  qed
  have patch: "\<exists>patched.
             patchManifest y t n s =
               (Inr (), s\<lparr>disk := (disk s)(pkg \<mapsto> File (JSON_stringify y (JObject patched) 2))\<rparr>)
             \<and> map_of patched ''name'' = Some (JString n)
             \<and> map_of patched ''version'' = Some (JString ''0.1.0'')
             \<and> (\<forall>k. k \<noteq> ''name'' \<and> k \<noteq> ''version'' \<longrightarrow> map_of patched k = map_of members k)
             \<and> (\<exists>added. map fst patched = map fst members @ added
                   \<and> set added \<subseteq> {''name'', ''version''})"
    if h: "\<not> io_fails y (Read pkg) \<and> \<not> io_fails y (Write pkg)
          \<and> disk s pkg = Some (File body) \<and> JSON_parse y body = Some (JObject members)"
    for body members
  proof -
  let ?named = "AList.update ''name'' (JString n) members"
  let ?patched = "AList.update ''version'' (JString ''0.1.0'') ?named"
  have "patchManifest y t n s =
      (Inr (), s\<lparr>disk := (disk s)(pkg \<mapsto> File (JSON_stringify y (JObject ?patched) 2))\<rparr>)"
    using h patchManifest_object [of y t s body members n] by (simp add: pkg_def)
  moreover have "map_of ?patched ''name'' = Some (JString n)"
    by (simp add: update_conv')
  moreover have "map_of ?patched ''version'' = Some (JString ''0.1.0'')"
    by (simp add: update_conv')
  moreover have "\<forall>k. k \<noteq> ''name'' \<and> k \<noteq> ''version'' \<longrightarrow> map_of ?patched k = map_of members k"
    by (simp add: update_conv')
  moreover have "\<exists>added. map fst ?patched = map fst members @ added
      \<and> set added \<subseteq> {''name'', ''version''}"
    by (auto simp: update_keys)
  ultimately show ?thesis by blast
  qed
  from frame patch show ?thesis by blast
qed


theorem patchManifest_frame_witness:
  \<open>\<not> io_fails demo_system (Read ''/home/user/my-app/package.json'')
   \<and> \<not> io_fails demo_system (Write ''/home/user/my-app/package.json'')
   \<and> disk demo_project ''/home/user/my-app/package.json''
       = Some (File ''{"name":"se-2","version":"0.0.1","private":true}'')
   \<and> (\<exists>patched.
         patchManifest demo_system ''/home/user/my-app'' ''my-app'' demo_project
           = (Inr (),
              demo_project\<lparr>disk := (disk demo_project)(''/home/user/my-app/package.json'' \<mapsto>
                File (JSON_stringify demo_system (JObject patched) 2))\<rparr>)
         \<and> map_of patched ''name'' = Some (JString ''my-app'')
         \<and> map_of patched ''version'' = Some (JString ''0.1.0'')
         \<and> map_of patched ''private'' = Some (JBool True))
   \<and> disk (snd (patchManifest demo_system ''/home/user/my-app'' ''my-app'' demo_project))
         ''/opt/create-se2/templates/nextjs/package.json''
       = disk demo_project ''/opt/create-se2/templates/nextjs/package.json''\<close>
proof -
  let ?t = "''/home/user/my-app''"
  let ?pkg = "''/home/user/my-app/package.json''"
  let ?body = \<open>''{"name":"se-2","version":"0.0.1","private":true}''\<close>
  let ?members = "[(''name'', JString ''se-2''), (''version'', JString ''0.0.1''),
                   (''private'', JBool True)]"
  have pkg: "path_join [?t, ''package.json''] = ?pkg"
    by code_simp
  have io: "\<not> io_fails demo_system (Read ?pkg)" "\<not> io_fails demo_system (Write ?pkg)"
    by (simp_all add: demo_system_def)
  have fl: "disk demo_project ?pkg = Some (File ?body)"
    by (simp add: demo_project_def)
  have parse: "JSON_parse demo_system ?body = Some (JObject ?members)"
    by (simp add: demo_system_def)
  note inst = patchManifest_frame [of demo_system ?t "''my-app''" demo_project, unfolded pkg]
  have hyp: "\<not> io_fails demo_system (Read ?pkg) \<and> \<not> io_fails demo_system (Write ?pkg)
          \<and> disk demo_project ?pkg = Some (File ?body)
          \<and> JSON_parse demo_system ?body = Some (JObject ?members)"
    using io fl parse by (intro conjI)
  from inst [THEN conjunct2, THEN spec, THEN spec, THEN mp, OF hyp]
  obtain patched where
    p1: "patchManifest demo_system ?t ''my-app'' demo_project =
          (Inr (), demo_project\<lparr>disk := (disk demo_project)(?pkg \<mapsto>
             File (JSON_stringify demo_system (JObject patched) 2))\<rparr>)"
    and p2: "map_of patched ''name'' = Some (JString ''my-app'')"
    and p3: "map_of patched ''version'' = Some (JString ''0.1.0'')"
    and p4: "\<forall>k. k \<noteq> ''name'' \<and> k \<noteq> ''version'' \<longrightarrow> map_of patched k = map_of ?members k"
    by (elim exE conjE)
  from p4 have "map_of patched ''private'' = map_of ?members ''private''"
    by simp
  then have p5: "map_of patched ''private'' = Some (JBool True)"
    by simp
  have ex: "\<exists>patched.
         patchManifest demo_system ?t ''my-app'' demo_project
           = (Inr (),
              demo_project\<lparr>disk := (disk demo_project)(?pkg \<mapsto>
                File (JSON_stringify demo_system (JObject patched) 2))\<rparr>)
         \<and> map_of patched ''name'' = Some (JString ''my-app'')
         \<and> map_of patched ''version'' = Some (JString ''0.1.0'')
         \<and> map_of patched ''private'' = Some (JBool True)"
    using p1 p2 p3 p5 by (intro exI [of _ patched] conjI)
  have fr: "disk (snd (patchManifest demo_system ?t ''my-app'' demo_project))
         ''/opt/create-se2/templates/nextjs/package.json''
       = disk demo_project ''/opt/create-se2/templates/nextjs/package.json''"
    using p1 by simp
  from io fl ex fr show ?thesis by (intro conjI)
qed

subsection \<open>The files the copy produces\<close>

lemma mkdirs_at:
  "fold (\<lambda>a d'. if d' a = None then d'(a \<mapsto> Directory) else d') as d p = d p
   \<or> d p = None
     \<and> fold (\<lambda>a d'. if d' a = None then d'(a \<mapsto> Directory) else d') as d p
         = Some Directory"
proof (induction as arbitrary: d)
  case Nil
  then show ?case by simp
next
  case (Cons a as)
  let ?d = "if d a = None then d(a \<mapsto> Directory) else d"
  from Cons.IH [of ?d] show ?case
    by (cases "p = a") (auto split: if_splits)
qed

lemma mkdirp_at: "mkdirp q d p = d p \<or> d p = None \<and> mkdirp q d p = Some Directory"
  unfolding mkdirp_def by (rule mkdirs_at)

lemma mkdirp_file: "mkdirp q d p = Some (File body) \<Longrightarrow> d p = Some (File body)"
  using mkdirp_at [of q d p] by auto

lemma mkdirp_keeps_file: "is_file (d p) \<Longrightarrow> is_file (mkdirp q d p)"
  using mkdirp_at [of q d p] by (auto simp: is_file_def)

lemma copy_one_file:
  assumes "copy_one y src dst s = (res, s')"
    and "disk s' p = Some (File body)" and "disk s p \<noteq> Some (File body)"
  shows "p = dst"
  using assms
  by (auto simp: copy_one_def split: if_splits option.splits node.splits dest: mkdirp_file)

lemma copy_rest_file:
  assumes "disk (copy_rest y plan s) p = Some (File body)" and "disk s p \<noteq> Some (File body)"
  shows "p \<in> snd ` set plan"
  using assms
proof (induction plan arbitrary: s)
  case Nil
  then show ?case by simp
next
  case (Cons a plan)
  obtain src dst where a: "a = (src, dst)" by (cases a)
  obtain r1 s1 where one: "copy_one y src dst s = (r1, s1)" by (cases "copy_one y src dst s")
  show ?case
  proof (cases "in_flight y src")
    case False
    with a Cons.prems have "disk (copy_rest y plan s) p = Some (File body)" by simp
    from Cons.IH [OF this Cons.prems(2)] show ?thesis by simp
  next
    case True
    with a one Cons.prems have rest: "disk (copy_rest y plan s1) p = Some (File body)" by simp
    show ?thesis
    proof (cases "disk s1 p = Some (File body)")
      case True
      from one True Cons.prems(2) have "p = dst" by (rule copy_one_file)
      with a show ?thesis by simp
    next
      case False
      from Cons.IH [OF rest False] show ?thesis by simp
    qed
  qed
qed

lemma copy_all_file:
  assumes "copy_all y plan s = (res, s')"
    and "disk s' p = Some (File body)" and "disk s p \<noteq> Some (File body)"
  shows "p \<in> snd ` set plan"
  using assms
proof (induction plan arbitrary: s)
  case Nil
  then show ?case by simp
next
  case (Cons a plan)
  obtain src dst where a: "a = (src, dst)" by (cases a)
  obtain r1 s1 where one: "copy_one y src dst s = (r1, s1)" by (cases "copy_one y src dst s")
  show ?case
  proof (cases "disk s1 p = Some (File body)")
    case True
    from one True Cons.prems(3) have "p = dst" by (rule copy_one_file)
    with a show ?thesis by simp
  next
    case changed: False
    show ?thesis
    proof (cases r1)
      case (Inl e)
      with one a Cons.prems(1,2) have "disk (copy_rest y plan s1) p = Some (File body)"
        by auto
      from copy_rest_file [OF this changed] show ?thesis by simp
    next
      case (Inr u)
      with one a Cons.prems(1) have "copy_all y plan s1 = (res, s')" by simp
      from Cons.IH [OF this Cons.prems(2) changed] show ?thesis by simp
    qed
  qed
qed

lemma copy_one_keeps_file:
  "copy_one y src dst s = (res, s') \<Longrightarrow> is_file (disk s p) \<Longrightarrow> is_file (disk s' p)"
  by (auto simp: copy_one_def mkdirp_keeps_file is_file_def [of "Some (File _)"]
      split: if_splits option.splits node.splits)

lemma copy_one_done:
  "copy_one y src dst s = (Inr u, s') \<Longrightarrow> is_file (disk s' dst)"
  by (auto simp: copy_one_def is_file_def split: if_splits option.splits node.splits)

lemma copy_rest_keeps_file:
  "is_file (disk s p) \<Longrightarrow> is_file (disk (copy_rest y plan s) p)"
proof (induction plan arbitrary: s)
  case Nil
  then show ?case by simp
next
  case (Cons a plan)
  obtain src dst where a: "a = (src, dst)" by (cases a)
  obtain r1 s1 where one: "copy_one y src dst s = (r1, s1)" by (cases "copy_one y src dst s")
  from one Cons.prems have "is_file (disk s1 p)" by (rule copy_one_keeps_file)
  with a one Cons.prems Cons.IH show ?case by simp
qed

lemma copy_all_keeps_file:
  "copy_all y plan s = (res, s') \<Longrightarrow> is_file (disk s p) \<Longrightarrow> is_file (disk s' p)"
proof (induction plan arbitrary: s)
  case Nil
  then show ?case by simp
next
  case (Cons a plan)
  obtain src dst where a: "a = (src, dst)" by (cases a)
  obtain r1 s1 where one: "copy_one y src dst s = (r1, s1)" by (cases "copy_one y src dst s")
  from one Cons.prems(2) have kept: "is_file (disk s1 p)" by (rule copy_one_keeps_file)
  show ?case
  proof (cases r1)
    case (Inl e)
    with one a Cons.prems(1) have "s' = copy_rest y plan s1" by auto
    with kept show ?thesis by (simp add: copy_rest_keeps_file)
  next
    case (Inr u)
    with one a Cons.prems(1) have "copy_all y plan s1 = (res, s')" by simp
    from Cons.IH [OF this kept] show ?thesis .
  qed
qed

lemma copy_all_done:
  "copy_all y plan s = (Inr u, s') \<Longrightarrow> (src, dst) \<in> set plan \<Longrightarrow> is_file (disk s' dst)"
proof (induction plan arbitrary: s)
  case Nil
  then show ?case by simp
next
  case (Cons a plan)
  obtain src1 dst1 where a: "a = (src1, dst1)" by (cases a)
  obtain r1 s1 where one: "copy_one y src1 dst1 s = (r1, s1)"
    by (cases "copy_one y src1 dst1 s")
  show ?case
  proof (cases r1)
    case (Inl e)
    with one a Cons.prems(1) show ?thesis by simp
  next
    case (Inr v)
    with one a Cons.prems(1) have rest: "copy_all y plan s1 = (Inr u, s')" by simp
    show ?thesis
    proof (cases "(src, dst) \<in> set plan")
      case True
      from Cons.IH [OF rest True] show ?thesis .
    next
      case False
      with Cons.prems(2) a have "dst = dst1" by simp
      with one Inr have "is_file (disk s1 dst)" by (simp add: copy_one_done)
      with rest show ?thesis by (rule copy_all_keeps_file)
    qed
  qed
qed

subsection \<open>The template\<close>

lemma glob_irrelevant_start:
  "start (y\<lparr>glob := g\<rparr>) = start y"
  "readJson (y\<lparr>glob := g\<rparr>) = readJson y"
  "writeFile (y\<lparr>glob := g\<rparr>) = writeFile y"
  "isValidProjectName (y\<lparr>glob := g\<rparr>) = isValidProjectName y"
  "selectedTemplatePath (y\<lparr>glob := g\<rparr>) = selectedTemplatePath y"
  "destination_of (y\<lparr>glob := g\<rparr>) = destination_of y"
  "copy_filter (y\<lparr>glob := g\<rparr>) = copy_filter y"
  "copy_one (y\<lparr>glob := g\<rparr>) = copy_one y"
  by (simp_all add: fun_eq_iff start_def readJson_def writeFile_def isValidProjectName_def
      selectedTemplatePath_def destination_of_def copy_filter_def copy_one_def
      cong: option.case_cong node.case_cong sum.case_cong prod.case_cong if_cong)

lemma glob_irrelevant_exec:
  "execa (y\<lparr>glob := g\<rparr>) = execa y"
  "execSync (y\<lparr>glob := g\<rparr>) = execSync y"
  "patchManifest (y\<lparr>glob := g\<rparr>) = patchManifest y"
  "validate (y\<lparr>glob := g\<rparr>) = validate y"
  "checkProjectName (y\<lparr>glob := g\<rparr>) = checkProjectName y"
  by (simp_all add: fun_eq_iff execa_def execSync_def patchManifest_def validate_def
      checkProjectName_def glob_irrelevant_start
      cong: option.case_cong node.case_cong sum.case_cong prod.case_cong if_cong)

lemma glob_irrelevant_probe: "probe (y\<lparr>glob := g\<rparr>) = probe y"
  by (simp add: fun_eq_iff probe_def glob_irrelevant_exec
      cong: option.case_cong node.case_cong sum.case_cong prod.case_cong if_cong)

lemma glob_irrelevant_detect: "detectPackageManager (y\<lparr>glob := g\<rparr>) = detectPackageManager y"
  by (simp add: detectPackageManager_def glob_irrelevant_probe
      cong: option.case_cong node.case_cong sum.case_cong prod.case_cong if_cong)

lemma glob_irrelevant_select: "selectPackageManager (y\<lparr>glob := g\<rparr>) = selectPackageManager y"
  by (simp add: fun_eq_iff selectPackageManager_def glob_irrelevant_detect)

lemma glob_irrelevant_git: "initializeGit (y\<lparr>glob := g\<rparr>) = initializeGit y"
  by (simp add: fun_eq_iff initializeGit_def glob_irrelevant_exec)

lemmas glob_irrelevant =
  glob_irrelevant_start glob_irrelevant_exec glob_irrelevant_probe glob_irrelevant_detect
  glob_irrelevant_select glob_irrelevant_git

lemma copy_rest_glob: "copy_rest (y\<lparr>glob := g\<rparr>) plan s = copy_rest y plan s"
  by (induction plan arbitrary: s) (auto simp: glob_irrelevant)

lemma copy_all_glob: "copy_all (y\<lparr>glob := g\<rparr>) plan s = copy_all y plan s"
  by (induction plan arbitrary: s)
    (auto simp: glob_irrelevant copy_rest_glob split: prod.splits sum.splits)

lemma materialize_glob:
  assumes "\<forall>d. g (path_join [tpl, ''**'', ''*'']) d = glob y (path_join [tpl, ''**'', ''*'']) d"
  shows "materialize (y\<lparr>glob := g\<rparr>) tpl target = materialize y tpl target"
  using assms
  by (simp add: fun_eq_iff materialize_def cpy_def copies_def copy_all_glob glob_irrelevant)

lemma prepare_glob:
  assumes "\<forall>d. g (path_join [selectedTemplatePath y, ''**'', ''*'']) d
               = glob y (path_join [selectedTemplatePath y, ''**'', ''*'']) d"
  shows "prepare (y\<lparr>glob := g\<rparr>) r n = prepare y r n"
  by (simp add: prepare_def glob_irrelevant materialize_glob [where g = g and y = y and tpl = "selectedTemplatePath y", OF assms])

lemma scaffold_glob:
  assumes "\<forall>d. g (path_join [selectedTemplatePath y, ''**'', ''*'']) d
               = glob y (path_join [selectedTemplatePath y, ''**'', ''*'']) d"
  shows "scaffold (y\<lparr>glob := g\<rparr>) r n = scaffold y r n"
  by (simp add: scaffold_def glob_irrelevant prepare_glob [where g = g and y = y, OF assms])

lemma ask_glob:
  assumes "\<forall>d. g (path_join [selectedTemplatePath y, ''**'', ''*'']) d
               = glob y (path_join [selectedTemplatePath y, ''**'', ''*'']) d"
  shows "ask (y\<lparr>glob := g\<rparr>) r s = ask y r s"
  by (simp add: ask_def glob_irrelevant scaffold_glob [where g = g and y = y, OF assms]
      cong: option.case_cong)

lemma run_body_glob:
  assumes "\<forall>d. g (path_join [selectedTemplatePath y, ''**'', ''*'']) d
               = glob y (path_join [selectedTemplatePath y, ''**'', ''*'']) d"
  shows "run_body (y\<lparr>glob := g\<rparr>) r s = run_body y r s"
  by (simp add: run_body_def Let_def ask_glob [where g = g and y = y, OF assms]
      scaffold_glob [where g = g and y = y, OF assms] cong: option.case_cong if_cong)

end
